theory Spec2Isabelle
  imports Main
begin

section \<open>Data model\<close>

text \<open>
  The service keeps one table, \<^verbatim>\<open>tree_items\<close>, declared by the class \<^verbatim>\<open>TreeNode\<close>
  (columns \<^verbatim>\<open>id\<close>, \<^verbatim>\<open>name\<close>, \<^verbatim>\<open>data\<close>, \<^verbatim>\<open>parent_id\<close>). A row is a record; the
  columns carry the prefix \<open>row_\<close> because \<open>id\<close> is a constant of HOL. The nullable
  columns are options.
\<close>

record TreeNode =
  row_id :: int
  row_name :: string
  row_data :: "string option"
  row_parent_id :: "int option"

text \<open>
  The write statements the handlers send to the database. The database state keeps
  the sequence of the statements it has executed, so that the order of the writes of
  one request can be stated.
\<close>

datatype stmt =
    Insert TreeNode
  | DeleteAll
  | DeleteById int
  | UpdateData int string

text \<open>
  The database: the rows of the table in their physical order, the last id the
  auto-increment column has handed out, and the executed write statements.
\<close>

record database =
  rows :: "TreeNode list"
  last_id :: int
  journal :: "stmt list"

text \<open>The request and response models (pydantic classes of the source).\<close>

datatype TreeItemCreate =
  TreeItemCreate (item_name: string) (item_data: "string option")
    (item_children: "TreeItemCreate list option")

datatype TreeItemUpdate = TreeItemUpdate (update_data: string)

datatype TreeItemResponse =
  TreeItemResponse (resp_id: int) (resp_name: string) (resp_data: "string option")
    (resp_parent_id: "int option") (resp_children: "TreeItemResponse list option")

text \<open>
  A parsed JSON document: request bodies before validation, and the dictionaries the
  handlers return.
\<close>

datatype json =
    JNull
  | JBool bool
  | JNum int
  | JStr string
  | JArr "json list"
  | JObj "(string \<times> json) list"

text \<open>
  \<open>HTTPException status detail\<close> is raised by the handlers;
  \<open>RequestValidationError\<close> (status 422) is how the framework rejects a body that
  does not fit the declared request model, before the handler is called.
\<close>

datatype error = HTTPException int string | RequestValidationError

section \<open>Request validation\<close>

text \<open>
  The framework parses the body with \<^verbatim>\<open>json.loads\<close>, where the last of several
  equal keys of an object wins, and validates it against the request model the handler
  declares. Keys the model does not declare are ignored.
\<close>

definition get_field :: "(string \<times> json) list \<Rightarrow> string \<Rightarrow> json option" where
  "get_field kvs k = map_of (rev kvs) k"

text \<open>A field declared \<^verbatim>\<open>Optional[str] = None\<close>: absent, null or a string.\<close>

definition validate_optional_str :: "json option \<Rightarrow> error + string option" where
  "validate_optional_str v =
     (case v of
        None \<Rightarrow> Inr None
      | Some JNull \<Rightarrow> Inr None
      | Some (JStr x) \<Rightarrow> Inr (Some x)
      | Some _ \<Rightarrow> Inl RequestValidationError)"

text \<open>
  \<^verbatim>\<open>class TreeItemCreate\<close>: \<^verbatim>\<open>name: str\<close> is required and must be a string (any
  string: the declaration has no length constraint; a number is not converted),
  \<^verbatim>\<open>data\<close> is an optional string, \<^verbatim>\<open>children\<close> is absent, null or a list of
  objects of the same model. Every failure is the one validation error.
\<close>

function (sequential) validate_TreeItemCreate :: "json \<Rightarrow> error + TreeItemCreate"
  and validate_items :: "json list \<Rightarrow> error + TreeItemCreate list" where
  "validate_TreeItemCreate (JObj kvs) =
     (case get_field kvs ''name'' of
        Some (JStr nm) \<Rightarrow>
          (case validate_optional_str (get_field kvs ''data'') of
             Inl e \<Rightarrow> Inl e
           | Inr dt \<Rightarrow>
               (case get_field kvs ''children'' of
                  None \<Rightarrow> Inr (TreeItemCreate nm dt None)
                | Some JNull \<Rightarrow> Inr (TreeItemCreate nm dt None)
                | Some (JArr xs) \<Rightarrow>
                    (case validate_items xs of
                       Inl e \<Rightarrow> Inl e
                     | Inr cs \<Rightarrow> Inr (TreeItemCreate nm dt (Some cs)))
                | Some _ \<Rightarrow> Inl RequestValidationError))
      | _ \<Rightarrow> Inl RequestValidationError)"
| "validate_TreeItemCreate _ = Inl RequestValidationError"
| "validate_items [] = Inr []"
| "validate_items (x # xs) =
     (case validate_TreeItemCreate x of
        Inl e \<Rightarrow> Inl e
      | Inr c \<Rightarrow>
          (case validate_items xs of
             Inl e \<Rightarrow> Inl e
           | Inr cs \<Rightarrow> Inr (c # cs)))"
  by pat_completeness auto
termination
proof (relation "measure (\<lambda>x. case x of Inl j \<Rightarrow> size j | Inr js \<Rightarrow> size_list size js)")
  fix kvs :: "(string \<times> json) list" and xs x2 x6
  assume "get_field kvs ''children'' = Some x2" and "x2 = JArr xs"
  then have "(''children'', JArr xs) \<in> set kvs"
    by (auto simp: get_field_def dest: map_of_SomeD)
  then have "size_prod (\<lambda>_. 0) size (''children'', JArr xs)
      \<le> size_list (size_prod (\<lambda>_. 0) size) kvs"
    by (rule size_list_estimation') simp
  then show "(Inr xs, Inl (JObj kvs))
      \<in> measure (\<lambda>x. case x of Inl j \<Rightarrow> size j | Inr js \<Rightarrow> size_list size js)"
    by simp
qed auto

text \<open>\<^verbatim>\<open>class TreeItemUpdate\<close>: \<^verbatim>\<open>data: str\<close> is required and must be a string.\<close>

fun validate_TreeItemUpdate :: "json \<Rightarrow> error + TreeItemUpdate" where
  "validate_TreeItemUpdate (JObj kvs) =
     (case get_field kvs ''data'' of
        Some (JStr dt) \<Rightarrow> Inr (TreeItemUpdate dt)
      | _ \<Rightarrow> Inl RequestValidationError)"
| "validate_TreeItemUpdate _ = Inl RequestValidationError"

section \<open>The SQL statements\<close>

text \<open>
  The database engine is outside the repository. Its statements are given their SQL
  meaning on a table that is the list of its rows in physical order: a query without
  \<^verbatim>\<open>ORDER BY\<close> returns the rows it selects in that order, \<^verbatim>\<open>ORDER BY id\<close> sorts
  them by id, an insert stores the new row after the rows that are there, an update
  rewrites a row in its place.

  \<^verbatim>\<open>INSERT INTO tree_items (name, data, parent_id) VALUES (:name, :data, :parent_id)\<close>:
  the new row takes the next id of the auto-increment column
  (\<^verbatim>\<open>id INTEGER PRIMARY KEY AUTOINCREMENT\<close> in create_table.py: one more than the last
  id handed out), and \<^verbatim>\<open>database.execute\<close> returns the new id. The statements
  proved below hold for every value of the counter.
\<close>

definition exec_insert :: "string \<Rightarrow> string option \<Rightarrow> int option \<Rightarrow> database \<Rightarrow> int \<times> database" where
  "exec_insert nm dt parent s =
     (let new_id = last_id s + 1;
          r = \<lparr>row_id = new_id, row_name = nm, row_data = dt, row_parent_id = parent\<rparr>
      in (new_id, s\<lparr>rows := rows s @ [r], last_id := new_id, journal := journal s @ [Insert r]\<rparr>))"

text \<open>\<^verbatim>\<open>DELETE FROM tree_items\<close>\<close>

definition exec_delete_all :: "database \<Rightarrow> database" where
  "exec_delete_all s = s\<lparr>rows := [], journal := journal s @ [DeleteAll]\<rparr>"

text \<open>\<^verbatim>\<open>DELETE FROM tree_items WHERE id = :item_id\<close>\<close>

definition exec_delete_by_id :: "int \<Rightarrow> database \<Rightarrow> database" where
  "exec_delete_by_id i s =
     s\<lparr>rows := filter (\<lambda>r. row_id r \<noteq> i) (rows s), journal := journal s @ [DeleteById i]\<rparr>"

text \<open>\<^verbatim>\<open>UPDATE tree_items SET data = :data WHERE id = :item_id\<close>\<close>

definition exec_update_data :: "string \<Rightarrow> int \<Rightarrow> database \<Rightarrow> database" where
  "exec_update_data dt i s =
     s\<lparr>rows := map (\<lambda>r. if row_id r = i then r\<lparr>row_data := Some dt\<rparr> else r) (rows s),
       journal := journal s @ [UpdateData i dt]\<rparr>"

text \<open>
  \<^verbatim>\<open>SELECT * FROM tree_items WHERE id = :node_id\<close> (and \<^verbatim>\<open>SELECT id ...\<close> in the
  existence checks) with \<^verbatim>\<open>fetch_one\<close>: the first matching row, or nothing.
\<close>

definition fetch_one_by_id :: "database \<Rightarrow> int \<Rightarrow> TreeNode option" where
  "fetch_one_by_id s i = find (\<lambda>r. row_id r = i) (rows s)"

text \<open>
  \<^verbatim>\<open>SELECT id FROM tree_items WHERE parent_id = :parent_id\<close> with \<^verbatim>\<open>fetch_all\<close>.
  The statement has no \<^verbatim>\<open>ORDER BY\<close>: the rows come in the order of the table.
\<close>

definition fetch_children :: "database \<Rightarrow> int \<Rightarrow> int list" where
  "fetch_children s parent = map row_id (filter (\<lambda>r. row_parent_id r = Some parent) (rows s))"

text \<open>\<^verbatim>\<open>SELECT id FROM tree_items WHERE parent_id IS NULL ORDER BY id\<close>\<close>

definition fetch_root_ids :: "database \<Rightarrow> int list" where
  "fetch_root_ids s = sort (map row_id (filter (\<lambda>r. row_parent_id r = None) (rows s)))"

text \<open>\<^verbatim>\<open>SELECT * FROM tree_items ORDER BY id\<close>\<close>

definition fetch_all_ordered :: "database \<Rightarrow> TreeNode list" where
  "fetch_all_ordered s = sort_key row_id (rows s)"

section \<open>The functions of main.py\<close>

text \<open>
  \<^verbatim>\<open>insert_tree_recursive\<close>: insert the node, then each child with the new id as its
  parent. \<open>insert_children\<close> is the \<^verbatim>\<open>for child in item.children\<close> loop; the test
  \<^verbatim>\<open>if item.children\<close> is false for \<^verbatim>\<open>None\<close> and for the empty list.
\<close>

fun insert_tree_recursive :: "TreeItemCreate \<Rightarrow> int option \<Rightarrow> database \<Rightarrow> int \<times> database"
  and insert_children :: "TreeItemCreate list \<Rightarrow> int \<Rightarrow> database \<Rightarrow> database" where
  "insert_tree_recursive (TreeItemCreate nm dt ch) parent s =
     (case exec_insert nm dt parent s of
        (new_id, s1) \<Rightarrow>
          (new_id,
           (case ch of
              None \<Rightarrow> s1
            | Some cs \<Rightarrow> if cs \<noteq> [] then insert_children cs new_id s1 else s1)))"
| "insert_children [] parent s = s"
| "insert_children (c # cs) parent s =
     insert_children cs parent (snd (insert_tree_recursive c (Some parent) s))"

text \<open>
  \<^verbatim>\<open>build_tree_recursive\<close> recurses along the rows of the table, not along its
  argument, and never returns on a table whose parent links form a cycle. The first
  argument bounds the depth of the recursion: the outer \<open>None\<close> is a call that does
  not return within the bound. The inner option is the function's own result,
  \<^verbatim>\<open>None\<close> when the row is not found. \<open>build_children\<close> is the loop that builds each
  listed node and appends the result unless it is \<^verbatim>\<open>None\<close>; the source has it twice,
  over the children of a node and over the roots.
\<close>

fun build_tree_recursive :: "nat \<Rightarrow> int \<Rightarrow> database \<Rightarrow> TreeItemResponse option option"
  and build_children :: "nat \<Rightarrow> int list \<Rightarrow> database \<Rightarrow> TreeItemResponse list option" where
  "build_tree_recursive 0 nid s = None"
| "build_tree_recursive (Suc n) nid s =
     (case fetch_one_by_id s nid of
        None \<Rightarrow> Some None
      | Some node \<Rightarrow>
          (case build_children n (fetch_children s nid) s of
             None \<Rightarrow> None
           | Some children \<Rightarrow>
               Some (Some (TreeItemResponse (row_id node) (row_name node) (row_data node)
                 (row_parent_id node) (if children \<noteq> [] then Some children else None)))))"
| "build_children n [] s = Some []"
| "build_children n (c # cs) s =
     (case build_tree_recursive n c s of
        None \<Rightarrow> None
      | Some child \<Rightarrow>
          (case build_children n cs s of
             None \<Rightarrow> None
           | Some rest \<Rightarrow> Some (case child of None \<Rightarrow> rest | Some t \<Rightarrow> t # rest)))"

text \<open>\<^verbatim>\<open>GET /api/tree\<close>\<close>

definition retrieve_tree :: "nat \<Rightarrow> database \<Rightarrow> TreeItemResponse list option" where
  "retrieve_tree n s =
     (let root_nodes = fetch_root_ids s
      in if root_nodes = [] then Some [] else build_children n root_nodes s)"

text \<open>\<^verbatim>\<open>GET /api/tree/all\<close>\<close>

definition retrieve_all_items :: "database \<Rightarrow> TreeNode list" where
  "retrieve_all_items s = fetch_all_ordered s"

text \<open>\<^verbatim>\<open>POST /api/tree\<close>, after validation of the body\<close>

definition create_tree_item :: "TreeItemCreate \<Rightarrow> database \<Rightarrow> (string \<times> json) list \<times> database" where
  "create_tree_item item s =
     (case insert_tree_recursive item None (exec_delete_all s) of
        (root_id, s') \<Rightarrow>
          ([(''message'', JStr ''Tree replaced successfully''), (''root_id'', JNum root_id)], s'))"

text \<open>\<^verbatim>\<open>PUT /api/tree/{item_id}/data\<close>, after validation of the body\<close>

definition update_tree_item_data ::
  "int \<Rightarrow> TreeItemUpdate \<Rightarrow> database \<Rightarrow> (error + (string \<times> json) list) \<times> database" where
  "update_tree_item_data item_id item s =
     (case fetch_one_by_id s item_id of
        None \<Rightarrow> (Inl (HTTPException 404 ''Item not found''), s)
      | Some existing \<Rightarrow>
          (Inr [(''item_id'', JNum item_id), (''data'', JStr (update_data item)),
                (''message'', JStr ''Data updated successfully'')],
           exec_update_data (update_data item) item_id s))"

text \<open>
  \<^verbatim>\<open>delete_recursive\<close>: the children are read once, each is deleted recursively, then
  the node's own row is deleted. The first argument bounds the depth of recursion as in
  \<open>build_tree_recursive\<close>; \<open>delete_children\<close> is the loop over the children.
\<close>

fun delete_recursive :: "nat \<Rightarrow> int \<Rightarrow> database \<Rightarrow> database option"
  and delete_children :: "nat \<Rightarrow> int list \<Rightarrow> database \<Rightarrow> database option" where
  "delete_recursive 0 nid s = None"
| "delete_recursive (Suc n) nid s =
     (case delete_children n (fetch_children s nid) s of
        None \<Rightarrow> None
      | Some s' \<Rightarrow> Some (exec_delete_by_id nid s'))"
| "delete_children n [] s = Some s"
| "delete_children n (c # cs) s =
     (case delete_recursive n c s of
        None \<Rightarrow> None
      | Some s' \<Rightarrow> delete_children n cs s')"

text \<open>\<^verbatim>\<open>DELETE /api/tree/{item_id}\<close>\<close>

definition delete_tree_item ::
  "nat \<Rightarrow> int \<Rightarrow> database \<Rightarrow> ((error + (string \<times> json) list) \<times> database) option" where
  "delete_tree_item n item_id s =
     (case fetch_one_by_id s item_id of
        None \<Rightarrow> Some (Inl (HTTPException 404 ''Item not found''), s)
      | Some existing \<Rightarrow>
          (case delete_recursive n item_id s of
             None \<Rightarrow> None
           | Some s' \<Rightarrow>
               Some (Inr [(''item_id'', JNum item_id),
                          (''message'', JStr ''Item and children deleted successfully'')], s')))"

section \<open>The routes with their validation\<close>

text \<open>
  A request reaches its handler only with a body that fits the declared model;
  otherwise the framework answers 422 and the handler, and so the database, is not
  touched.
\<close>

definition post_api_tree :: "json \<Rightarrow> database \<Rightarrow> (error + (string \<times> json) list) \<times> database" where
  "post_api_tree body s =
     (case validate_TreeItemCreate body of
        Inl e \<Rightarrow> (Inl e, s)
      | Inr item \<Rightarrow> (case create_tree_item item s of (reply, s') \<Rightarrow> (Inr reply, s')))"

definition put_api_tree_data ::
  "int \<Rightarrow> json \<Rightarrow> database \<Rightarrow> (error + (string \<times> json) list) \<times> database" where
  "put_api_tree_data item_id body s =
     (case validate_TreeItemUpdate body of
        Inl e \<Rightarrow> (Inl e, s)
      | Inr item \<Rightarrow> update_tree_item_data item_id item s)"

section \<open>The databases the routes reach\<close>

text \<open>The database before the first request.\<close>

definition empty_db :: database where
  "empty_db = \<lparr>rows = [], last_id = 0, journal = []\<rparr>"

text \<open>
  The databases that requests to the three writing routes reach from the empty one.
\<close>

inductive_set reachable :: "database set" where
  init: "empty_db \<in> reachable"
| post: "s \<in> reachable \<Longrightarrow> snd (post_api_tree body s) \<in> reachable"
| put: "s \<in> reachable \<Longrightarrow> snd (put_api_tree_data item_id body s) \<in> reachable"
| delete: "s \<in> reachable \<Longrightarrow> delete_tree_item n item_id s = Some (res, s')
    \<Longrightarrow> s' \<in> reachable"

section \<open>Notions of the statements\<close>

subsection \<open>Input structures\<close>

text \<open>The number of nodes of an input structure.\<close>

fun node_count :: "TreeItemCreate \<Rightarrow> int"
  and node_count_list :: "TreeItemCreate list \<Rightarrow> int" where
  "node_count (TreeItemCreate nm dt ch) =
     1 + (case ch of None \<Rightarrow> 0 | Some cs \<Rightarrow> node_count_list cs)"
| "node_count_list [] = 0"
| "node_count_list (c # cs) = node_count c + node_count_list cs"

text \<open>The depth of an input structure: the recursion depth that reading it back takes.\<close>

fun item_depth :: "TreeItemCreate \<Rightarrow> nat"
  and item_depth_list :: "TreeItemCreate list \<Rightarrow> nat" where
  "item_depth (TreeItemCreate nm dt ch) =
     Suc (case ch of None \<Rightarrow> 0 | Some cs \<Rightarrow> item_depth_list cs)"
| "item_depth_list [] = 0"
| "item_depth_list (c # cs) = max (item_depth c) (item_depth_list cs)"

text \<open>The names of an input structure, in pre-order.\<close>

fun item_names :: "TreeItemCreate \<Rightarrow> string list"
  and item_names_list :: "TreeItemCreate list \<Rightarrow> string list" where
  "item_names (TreeItemCreate nm dt ch) =
     nm # (case ch of None \<Rightarrow> [] | Some cs \<Rightarrow> item_names_list cs)"
| "item_names_list [] = []"
| "item_names_list (c # cs) = item_names c @ item_names_list cs"

text \<open>
  The rows that stand for an input structure when its nodes are numbered in pre-order
  from \<open>k + 1\<close>: the node itself with the given parent, then the rows of each child
  in turn, with the node's id as their parent.
\<close>

fun preorder_rows :: "TreeItemCreate \<Rightarrow> int option \<Rightarrow> int \<Rightarrow> TreeNode list"
  and preorder_rows_list :: "TreeItemCreate list \<Rightarrow> int \<Rightarrow> int \<Rightarrow> TreeNode list" where
  "preorder_rows (TreeItemCreate nm dt ch) parent k =
     \<lparr>row_id = k + 1, row_name = nm, row_data = dt, row_parent_id = parent\<rparr>
       # (case ch of None \<Rightarrow> [] | Some cs \<Rightarrow> preorder_rows_list cs (k + 1) (k + 1))"
| "preorder_rows_list [] parent k = []"
| "preorder_rows_list (c # cs) parent k =
     preorder_rows c (Some parent) k @ preorder_rows_list cs parent (k + node_count c)"

text \<open>
  The response that stands for an input structure when its nodes are numbered in
  pre-order from \<open>k + 1\<close>, as \<open>preorder_rows\<close> numbers them; and the ids that
  the members of a list of children get when the list is numbered from \<open>k + 1\<close>.
\<close>

fun response_of :: "TreeItemCreate \<Rightarrow> int option \<Rightarrow> int \<Rightarrow> TreeItemResponse"
  and responses_of :: "TreeItemCreate list \<Rightarrow> int \<Rightarrow> int \<Rightarrow> TreeItemResponse list" where
  "response_of (TreeItemCreate nm dt ch) parent k =
     TreeItemResponse (k + 1) nm dt parent
       (case ch of
          None \<Rightarrow> None
        | Some cs \<Rightarrow> if cs \<noteq> [] then Some (responses_of cs (k + 1) (k + 1)) else None)"
| "responses_of [] parent k = []"
| "responses_of (c # cs) parent k =
     response_of c (Some parent) k # responses_of cs parent (k + node_count c)"

fun child_ids :: "TreeItemCreate list \<Rightarrow> int \<Rightarrow> int list" where
  "child_ids [] k = []"
| "child_ids (c # cs) k = (k + 1) # child_ids cs (k + node_count c)"

text \<open>
  An input structure and a response have the same shape: the same name and data, and
  children that have the same shape one by one, in the same order. An absent list of
  children and an empty one are the same on both sides.
\<close>

fun same_shape :: "TreeItemCreate \<Rightarrow> TreeItemResponse \<Rightarrow> bool"
  and same_shape_list :: "TreeItemCreate list \<Rightarrow> TreeItemResponse list \<Rightarrow> bool" where
  "same_shape (TreeItemCreate nm dt None) t =
     (resp_name t = nm \<and> resp_data t = dt
      \<and> (case resp_children t of None \<Rightarrow> True | Some ts \<Rightarrow> ts = []))"
| "same_shape (TreeItemCreate nm dt (Some cs)) t =
     (resp_name t = nm \<and> resp_data t = dt
      \<and> same_shape_list cs (case resp_children t of None \<Rightarrow> [] | Some ts \<Rightarrow> ts))"
| "same_shape_list [] ts = (ts = [])"
| "same_shape_list (c # cs) ts =
     (case ts of [] \<Rightarrow> False | t # ts' \<Rightarrow> same_shape c t \<and> same_shape_list cs ts')"

subsection \<open>Request bodies\<close>

text \<open>
  The nodes of a request body: the body itself, and every element of the \<^verbatim>\<open>children\<close>
  array of a node that is an object.
\<close>

inductive_set json_nodes :: "json \<Rightarrow> json set" for body :: json where
  top: "body \<in> json_nodes body"
| child: "JObj kvs \<in> json_nodes body \<Longrightarrow> get_field kvs ''children'' = Some (JArr xs)
    \<Longrightarrow> x \<in> set xs \<Longrightarrow> x \<in> json_nodes body"

text \<open>The node is an object whose \<^verbatim>\<open>name\<close> is present and a string.\<close>

fun has_string_name :: "json \<Rightarrow> bool" where
  "has_string_name (JObj kvs) =
     (case get_field kvs ''name'' of Some (JStr nm) \<Rightarrow> True | _ \<Rightarrow> False)"
| "has_string_name _ = False"

subsection \<open>Tables and responses\<close>

text \<open>
  The ids of the subtree of a node in a table, that is of the node and its descendants:
  the node's id, and the id of every row whose parent id is in the subtree.
\<close>

inductive_set subtree_ids :: "TreeNode list \<Rightarrow> int \<Rightarrow> int set"
  for rs :: "TreeNode list" and root :: int where
  root: "root \<in> subtree_ids rs root"
| child: "p \<in> subtree_ids rs root \<Longrightarrow> r \<in> set rs \<Longrightarrow> row_parent_id r = Some p
    \<Longrightarrow> row_id r \<in> subtree_ids rs root"

text \<open>
  Every row that has a parent has a greater id than its parent: what inserting parents
  before their children under an increasing id counter gives.
\<close>

definition parents_first :: "TreeNode list \<Rightarrow> bool" where
  "parents_first rs =
     list_all (\<lambda>r. case row_parent_id r of None \<Rightarrow> True | Some p \<Rightarrow> p < row_id r) rs"

text \<open>
  Replaying a sequence of \<^verbatim>\<open>DELETE ... WHERE id\<close> statements on a table: each one
  deletes an id that no row still in the table has as its parent.
\<close>

fun children_first :: "TreeNode list \<Rightarrow> int list \<Rightarrow> bool" where
  "children_first rs [] = True"
| "children_first rs (d # ds) =
     (list_all (\<lambda>r. row_parent_id r \<noteq> Some d) rs
      \<and> children_first (filter (\<lambda>r. row_id r \<noteq> d) rs) ds)"

text \<open>No row has its id or its parent id in the interval from \<open>lo + 1\<close> to \<open>hi\<close>.\<close>

definition outside :: "int \<Rightarrow> int \<Rightarrow> TreeNode list \<Rightarrow> bool" where
  "outside lo hi rs =
     (\<forall>r \<in> set rs. \<not> (lo < row_id r \<and> row_id r \<le> hi)
        \<and> (\<forall>j. row_parent_id r = Some j \<longrightarrow> \<not> (lo < j \<and> j \<le> hi)))"

text \<open>The nodes of a response tree, and of a list of response trees.\<close>

fun resp_nodes :: "TreeItemResponse \<Rightarrow> TreeItemResponse list"
  and resp_nodes_list :: "TreeItemResponse list \<Rightarrow> TreeItemResponse list" where
  "resp_nodes (TreeItemResponse i nm dt p ch) =
     TreeItemResponse i nm dt p ch
       # (case ch of None \<Rightarrow> [] | Some ts \<Rightarrow> resp_nodes_list ts)"
| "resp_nodes_list [] = []"
| "resp_nodes_list (t # ts) = resp_nodes t @ resp_nodes_list ts"

text \<open>
  The children field of a response node agrees with the table: null when no row has
  the node as its parent, and otherwise the non-empty list of the responses of the child
  rows, in the order of the child query.
\<close>

definition children_agree :: "database \<Rightarrow> TreeItemResponse \<Rightarrow> bool" where
  "children_agree s t =
     (case resp_children t of
        None \<Rightarrow> fetch_children s (resp_id t) = []
      | Some ts \<Rightarrow> ts \<noteq> [] \<and> map resp_id ts = fetch_children s (resp_id t))"

text \<open>
  In a response every child names its parent: its \<^verbatim>\<open>parent_id\<close> is the \<^verbatim>\<open>id\<close> of
  the node in whose children it is listed.
\<close>

fun linked :: "TreeItemResponse \<Rightarrow> bool"
  and linked_list :: "int \<Rightarrow> TreeItemResponse list \<Rightarrow> bool" where
  "linked (TreeItemResponse i nm dt p ch) =
     (case ch of None \<Rightarrow> True | Some ts \<Rightarrow> linked_list i ts)"
| "linked_list i [] = True"
| "linked_list i (t # ts) = (resp_parent_id t = Some i \<and> linked t \<and> linked_list i ts)"

section \<open>Examples\<close>

text \<open>The input of the examples.\<close>

definition example_item :: TreeItemCreate where
  "example_item =
     TreeItemCreate ''root'' None (Some
       [TreeItemCreate ''a'' (Some ''alpha'') None,
        TreeItemCreate ''b'' None (Some [TreeItemCreate ''c'' None None])])"

text \<open>
  The table after \<^verbatim>\<open>POST /api/tree\<close> of
  \<^verbatim>\<open>{"name":"root","children":[{"name":"a","data":"alpha"},{"name":"b","children":[{"name":"c"}]}]}\<close>
  on a fresh database.
\<close>

definition example_rows :: "TreeNode list" where
  "example_rows =
     [\<lparr>row_id = 1, row_name = ''root'', row_data = None, row_parent_id = None\<rparr>,
      \<lparr>row_id = 2, row_name = ''a'', row_data = Some ''alpha'', row_parent_id = Some 1\<rparr>,
      \<lparr>row_id = 3, row_name = ''b'', row_data = None, row_parent_id = Some 1\<rparr>,
      \<lparr>row_id = 4, row_name = ''c'', row_data = None, row_parent_id = Some 3\<rparr>]"

definition example_db :: database where
  "example_db = \<lparr>rows = example_rows, last_id = 4, journal = []\<rparr>"

text \<open>\<^verbatim>\<open>GET /api/tree\<close> on \<open>example_db\<close>.\<close>

definition example_tree :: TreeItemResponse where
  "example_tree =
     TreeItemResponse 1 ''root'' None None (Some
       [TreeItemResponse 2 ''a'' (Some ''alpha'') (Some 1) None,
        TreeItemResponse 3 ''b'' None (Some 1) (Some
          [TreeItemResponse 4 ''c'' None (Some 3) None])])"

text \<open>The same table after \<^verbatim>\<open>PUT /api/tree/3/data\<close> with \<^verbatim>\<open>{"data":"beta"}\<close>.\<close>

definition example_db_updated :: database where
  "example_db_updated =
     \<lparr>rows =
         [\<lparr>row_id = 1, row_name = ''root'', row_data = None, row_parent_id = None\<rparr>,
          \<lparr>row_id = 2, row_name = ''a'', row_data = Some ''alpha'', row_parent_id = Some 1\<rparr>,
          \<lparr>row_id = 3, row_name = ''b'', row_data = Some ''beta'', row_parent_id = Some 1\<rparr>,
          \<lparr>row_id = 4, row_name = ''c'', row_data = None, row_parent_id = Some 3\<rparr>],
        last_id = 4, journal = [UpdateData 3 ''beta'']\<rparr>"

text \<open>\<open>example_db\<close> after \<^verbatim>\<open>DELETE /api/tree/3\<close>, and after \<^verbatim>\<open>DELETE /api/tree/1\<close>.\<close>

definition example_db_without_b :: database where
  "example_db_without_b =
     \<lparr>rows =
        [\<lparr>row_id = 1, row_name = ''root'', row_data = None, row_parent_id = None\<rparr>,
         \<lparr>row_id = 2, row_name = ''a'', row_data = Some ''alpha'', row_parent_id = Some 1\<rparr>],
      last_id = 4, journal = [DeleteById 4, DeleteById 3]\<rparr>"

definition example_db_cleared :: database where
  "example_db_cleared =
     \<lparr>rows = [], last_id = 4,
      journal = [DeleteById 2, DeleteById 4, DeleteById 3, DeleteById 1]\<rparr>"

text \<open>\<open>example_db\<close> after \<^verbatim>\<open>POST /api/tree\<close> of the example input.\<close>

definition replaced_rows :: "TreeNode list" where
  "replaced_rows =
     [\<lparr>row_id = 5, row_name = ''root'', row_data = None, row_parent_id = None\<rparr>,
      \<lparr>row_id = 6, row_name = ''a'', row_data = Some ''alpha'', row_parent_id = Some 5\<rparr>,
      \<lparr>row_id = 7, row_name = ''b'', row_data = None, row_parent_id = Some 5\<rparr>,
      \<lparr>row_id = 8, row_name = ''c'', row_data = None, row_parent_id = Some 7\<rparr>]"

definition replaced_db :: database where
  "replaced_db =
     \<lparr>rows = replaced_rows, last_id = 8, journal = DeleteAll # map Insert replaced_rows\<rparr>"

text \<open>\<^verbatim>\<open>GET /api/tree\<close> on \<open>replaced_db\<close>.\<close>

definition replaced_tree :: TreeItemResponse where
  "replaced_tree =
     TreeItemResponse 5 ''root'' None None (Some
       [TreeItemResponse 6 ''a'' (Some ''alpha'') (Some 5) None,
        TreeItemResponse 7 ''b'' None (Some 5) (Some
          [TreeItemResponse 8 ''c'' None (Some 7) None])])"

text \<open>
  The rows of \<open>example_db\<close> in another physical order: the row of \<open>a\<close> is stored
  last, as in a table whose engine wrote the new version of an updated row at the end.
\<close>

definition reordered_db :: database where
  "reordered_db =
     \<lparr>rows =
         [\<lparr>row_id = 1, row_name = ''root'', row_data = None, row_parent_id = None\<rparr>,
          \<lparr>row_id = 3, row_name = ''b'', row_data = None, row_parent_id = Some 1\<rparr>,
          \<lparr>row_id = 4, row_name = ''c'', row_data = None, row_parent_id = Some 3\<rparr>,
          \<lparr>row_id = 2, row_name = ''a'', row_data = Some ''alpha'', row_parent_id = Some 1\<rparr>],
        last_id = 4, journal = []\<rparr>"

section \<open>Unknown ids\<close>

text \<open>
  Claim C3. For an id that no row of the table has, the handlers of
  \<^verbatim>\<open>PUT /api/tree/{id}/data\<close> and \<^verbatim>\<open>DELETE /api/tree/{id}\<close> both raise
  \<open>HTTPException 404\<close> and return the database as it was: the rows, the id counter
  and the executed statements are the same, so no write statement was sent. For the
  delete this holds whatever the recursion depth allowed, and the route of the update
  leaves the database unchanged for every body, valid or not.
\<close>

theorem not_found_no_change:
  assumes "fetch_one_by_id s item_id = None"
  shows "update_tree_item_data item_id item s = (Inl (HTTPException 404 ''Item not found''), s)
    \<and> delete_tree_item n item_id s = Some (Inl (HTTPException 404 ''Item not found''), s)
    \<and> snd (put_api_tree_data item_id body s) = s"
  using assms
  by (simp add: update_tree_item_data_def delete_tree_item_def put_api_tree_data_def
      split: sum.split)

theorem not_found_no_change_witness:
  "fetch_one_by_id example_db 999 = None
   \<and> update_tree_item_data 999 (TreeItemUpdate ''x'') example_db
       = (Inl (HTTPException 404 ''Item not found''), example_db)
   \<and> delete_tree_item 0 999 example_db
       = Some (Inl (HTTPException 404 ''Item not found''), example_db)
   \<and> snd (put_api_tree_data 999 (JObj [(''data'', JStr ''x'')]) example_db) = example_db"
proof -
  have h: "fetch_one_by_id example_db 999 = None"
    by (simp add: fetch_one_by_id_def example_db_def example_rows_def)
  from not_found_no_change [OF h, of "TreeItemUpdate ''x''" 0 "JObj [(''data'', JStr ''x'')]"] h
  show ?thesis by simp
qed

section \<open>Updating the data of a node\<close>

text \<open>
  Claim C8. For an id that a row of the table has, the handler of
  \<^verbatim>\<open>PUT /api/tree/{id}/data\<close> succeeds and changes nothing but the data column of
  the rows with that id: the table keeps its length and its order, every row keeps its
  id, its name and its parent id, a row with another id is unchanged in every column,
  and the id counter is unchanged.
\<close>

theorem update_changes_data_only:
  assumes "fetch_one_by_id s item_id \<noteq> None"
    and "update_tree_item_data item_id item s = (res, s')"
  shows "res = Inr [(''item_id'', JNum item_id), (''data'', JStr (update_data item)),
                 (''message'', JStr ''Data updated successfully'')]
    \<and> length (rows s') = length (rows s)
    \<and> last_id s' = last_id s
    \<and> (\<forall>i<length (rows s).
          row_id (rows s' ! i) = row_id (rows s ! i)
        \<and> row_name (rows s' ! i) = row_name (rows s ! i)
        \<and> row_parent_id (rows s' ! i) = row_parent_id (rows s ! i)
        \<and> (if row_id (rows s ! i) = item_id
            then row_data (rows s' ! i) = Some (update_data item)
            else rows s' ! i = rows s ! i))"
  using assms
  by (auto simp: update_tree_item_data_def exec_update_data_def)

theorem update_changes_data_only_witness:
  "fetch_one_by_id example_db 3 \<noteq> None
   \<and> update_tree_item_data 3 (TreeItemUpdate ''beta'') example_db
       = (Inr [(''item_id'', JNum 3), (''data'', JStr ''beta''),
               (''message'', JStr ''Data updated successfully'')], example_db_updated)
   \<and> length (rows example_db_updated) = length (rows example_db)
   \<and> last_id example_db_updated = last_id example_db
   \<and> rows example_db_updated ! 1 = rows example_db ! 1
   \<and> row_name (rows example_db_updated ! 2) = row_name (rows example_db ! 2)
   \<and> row_parent_id (rows example_db_updated ! 2) = row_parent_id (rows example_db ! 2)
   \<and> row_data (rows example_db_updated ! 2) = Some ''beta''"
proof -
  have h: "fetch_one_by_id example_db 3 \<noteq> None"
    by (simp add: fetch_one_by_id_def example_db_def example_rows_def)
  have e: "update_tree_item_data 3 (TreeItemUpdate ''beta'') example_db
       = (Inr [(''item_id'', JNum 3), (''data'', JStr ''beta''),
               (''message'', JStr ''Data updated successfully'')], example_db_updated)"
    by (simp add: update_tree_item_data_def exec_update_data_def fetch_one_by_id_def
        example_db_def example_rows_def example_db_updated_def)
  have i1: "1 < length (rows example_db) \<and> row_id (rows example_db ! 1) \<noteq> 3"
    and i2: "2 < length (rows example_db) \<and> row_id (rows example_db ! 2) = 3"
    by (simp_all add: example_db_def example_rows_def)
  from update_changes_data_only [OF h e] i1 i2
  have "length (rows example_db_updated) = length (rows example_db)
    \<and> last_id example_db_updated = last_id example_db
    \<and> rows example_db_updated ! 1 = rows example_db ! 1
    \<and> row_name (rows example_db_updated ! 2) = row_name (rows example_db ! 2)
    \<and> row_parent_id (rows example_db_updated ! 2) = row_parent_id (rows example_db ! 2)
    \<and> row_data (rows example_db_updated ! 2) = Some ''beta''"
    by (auto split: if_splits)
  with h e show ?thesis by blast
qed

text \<open>
  Claim C10. The body of \<^verbatim>\<open>PUT /api/tree/{id}/data\<close> is validated against
  \<^verbatim>\<open>TreeItemUpdate\<close>, whose field \<^verbatim>\<open>data: str\<close> is required and not nullable. A body
  whose \<^verbatim>\<open>data\<close> is absent or null is rejected with a validation error and the
  database is untouched. Whatever the body and the id, a request that is not rejected
  by the validation has an object as its body with a string under \<^verbatim>\<open>data\<close>, and a row
  whose data is null after the request had null data before it: the route never resets
  a data column to null.
\<close>

theorem update_requires_string_data:
  "(get_field kvs ''data'' = None \<or> get_field kvs ''data'' = Some JNull
      \<longrightarrow> put_api_tree_data item_id (JObj kvs) s = (Inl RequestValidationError, s))
   \<and> (put_api_tree_data item_id body s = (res, s')
      \<longrightarrow> length (rows s') = length (rows s)
        \<and> (\<forall>i<length (rows s).
              row_data (rows s' ! i) = None \<longrightarrow> row_data (rows s ! i) = None)
        \<and> (res = Inl RequestValidationError
            \<or> (\<exists>kvs dt. body = JObj kvs \<and> get_field kvs ''data'' = Some (JStr dt))))"
proof (intro conjI impI)
  assume "get_field kvs ''data'' = None \<or> get_field kvs ''data'' = Some JNull"
  then show "put_api_tree_data item_id (JObj kvs) s = (Inl RequestValidationError, s)"
    by (auto simp: put_api_tree_data_def)
next
  assume r: "put_api_tree_data item_id body s = (res, s')"
  then have "s' = s \<or> (\<exists>dt. s' = exec_update_data dt item_id s)"
    by (auto simp: put_api_tree_data_def update_tree_item_data_def
        split: sum.splits option.splits)
  then show "length (rows s') = length (rows s)"
    by (auto simp: exec_update_data_def)
  assume r: "put_api_tree_data item_id body s = (res, s')"
  then have "s' = s \<or> (\<exists>dt. s' = exec_update_data dt item_id s)"
    by (auto simp: put_api_tree_data_def update_tree_item_data_def
        split: sum.splits option.splits)
  then show "\<forall>i<length (rows s).
              row_data (rows s' ! i) = None \<longrightarrow> row_data (rows s ! i) = None"
    by (auto simp: exec_update_data_def split: if_splits)
  from r show "res = Inl RequestValidationError
      \<or> (\<exists>kvs dt. body = JObj kvs \<and> get_field kvs ''data'' = Some (JStr dt))"
    by (cases body) (auto simp: put_api_tree_data_def split: option.splits json.splits)
qed

theorem update_requires_string_data_witness:
  "(get_field [(''data'', JNull)] ''data'' = None
      \<or> get_field [(''data'', JNull)] ''data'' = Some JNull)
   \<and> put_api_tree_data 3 (JObj [(''data'', JNull)]) example_db
       = (Inl RequestValidationError, example_db)
   \<and> put_api_tree_data 3 (JObj [(''data'', JStr ''beta'')]) example_db
       = (Inr [(''item_id'', JNum 3), (''data'', JStr ''beta''),
               (''message'', JStr ''Data updated successfully'')], example_db_updated)
   \<and> length (rows example_db_updated) = length (rows example_db)
   \<and> row_data (rows example_db_updated ! 1) \<noteq> None"
proof -
  have h1: "get_field [(''data'', JNull)] ''data'' = None
      \<or> get_field [(''data'', JNull)] ''data'' = Some JNull"
    by (simp add: get_field_def)
  have h2: "put_api_tree_data 3 (JObj [(''data'', JStr ''beta'')]) example_db
       = (Inr [(''item_id'', JNum 3), (''data'', JStr ''beta''),
               (''message'', JStr ''Data updated successfully'')], example_db_updated)"
    by (simp add: put_api_tree_data_def get_field_def update_tree_item_data_def
        exec_update_data_def fetch_one_by_id_def
        example_db_def example_rows_def example_db_updated_def)
  have i1: "1 < length (rows example_db) \<and> row_data (rows example_db ! 1) \<noteq> None"
    by (simp add: example_db_def example_rows_def)
  from update_requires_string_data [of "[(''data'', JNull)]" 3 example_db
      "JObj [(''data'', JStr ''beta'')]"
      "Inr [(''item_id'', JNum 3), (''data'', JStr ''beta''),
               (''message'', JStr ''Data updated successfully'')]" example_db_updated] h1 h2 i1
  show ?thesis by auto
qed

section \<open>The order of the id queries\<close>

text \<open>
  The root query and the query of all rows have \<^verbatim>\<open>ORDER BY id\<close>: their results are
  ascending in the id for every table, whatever its physical order.
\<close>

lemma fetch_root_ids_sorted: "sorted (fetch_root_ids s)"
  by (simp add: fetch_root_ids_def)

lemma fetch_root_ids_set:
  "set (fetch_root_ids s) = {row_id r | r. r \<in> set (rows s) \<and> row_parent_id r = None}"
  by (auto simp: fetch_root_ids_def)

lemma retrieve_all_items_sorted: "sorted (map row_id (retrieve_all_items s))"
  by (simp add: retrieve_all_items_def fetch_all_ordered_def)

text \<open>
  Claim C2. The child query of \<^verbatim>\<open>build_tree_recursive\<close> (and of
  \<^verbatim>\<open>delete_recursive\<close>) has no \<^verbatim>\<open>ORDER BY\<close>. On \<open>reordered_db\<close> the children of
  node 1 come back as 3, 2, which is not ascending, and \<^verbatim>\<open>GET /api/tree\<close> lists
  the child \<open>b\<close> before the child \<open>a\<close>. The claim holds for the root query only
  (\<open>fetch_root_ids_sorted\<close>).
\<close>

theorem fetch_children_table_order:
  "fetch_children reordered_db 1 = [3, 2]
   \<and> \<not> sorted (fetch_children reordered_db 1)
   \<and> retrieve_tree 3 reordered_db =
       Some [TreeItemResponse 1 ''root'' None None (Some
               [TreeItemResponse 3 ''b'' None (Some 1) (Some
                  [TreeItemResponse 4 ''c'' None (Some 3) None]),
                TreeItemResponse 2 ''a'' (Some ''alpha'') (Some 1) None])]"
  by (simp add: fetch_children_def reordered_db_def retrieve_tree_def fetch_root_ids_def
      fetch_one_by_id_def numeral_3_eq_3)

section \<open>Replacing the tree\<close>

lemma node_count_pos: "0 < node_count item" and node_count_list_nonneg: "0 \<le> node_count_list cs"
  by (induction item and cs rule: node_count_node_count_list.induct) (auto split: option.splits)

text \<open>
  The recursive insert appends the pre-order rows of the input, numbered from the id
  counter, and sends one \<^verbatim>\<open>INSERT\<close> for each of them, in that order.
\<close>

lemma insert_tree_recursive_rows:
  "insert_tree_recursive item parent s =
     (last_id s + 1,
      s\<lparr>rows := rows s @ preorder_rows item parent (last_id s),
        last_id := last_id s + node_count item,
        journal := journal s @ map Insert (preorder_rows item parent (last_id s))\<rparr>)"
  and insert_children_rows:
  "insert_children cs p s =
      s\<lparr>rows := rows s @ preorder_rows_list cs p (last_id s),
        last_id := last_id s + node_count_list cs,
        journal := journal s @ map Insert (preorder_rows_list cs p (last_id s))\<rparr>"
proof (induction item parent s and cs p s rule: insert_tree_recursive_insert_children.induct)
  case (1 nm dt ch parent s)
  then show ?case
    by (auto simp: exec_insert_def Let_def split: option.splits)
next
  case (2 parent s)
  then show ?case by simp
next
  case (3 c cs parent s)
  then show ?case by (simp add: add.assoc)
qed

text \<open>The ids of the new rows are consecutive.\<close>

lemma preorder_rows_ids:
  "map row_id (preorder_rows item parent k) = [k + 1 .. k + node_count item]"
  and preorder_rows_list_ids:
  "map row_id (preorder_rows_list cs p k) = [k + 1 .. k + node_count_list cs]"
proof (induction item parent k and cs p k rule: preorder_rows_preorder_rows_list.induct)
  case (1 nm dt ch parent k)
  show ?case
  proof (cases ch)
    case None
    then show ?thesis by (simp add: upto_rec1)
  next
    case (Some cs)
    with 1 have "map row_id (preorder_rows_list cs (k + 1) (k + 1))
        = [k + 1 + 1 .. k + 1 + node_count_list cs]"
      by simp
    moreover have "[k + 1 .. k + (1 + node_count_list cs)]
        = (k + 1) # [k + 1 + 1 .. k + 1 + node_count_list cs]"
      using node_count_list_nonneg [of cs] by (subst upto_rec1) (simp_all add: add.assoc)
    ultimately show ?thesis using Some by simp
  qed
next
  case (2 parent k)
  then show ?case by simp
next
  case (3 c cs parent k)
  have "[k + 1 .. k + (node_count c + node_count_list cs)]
      = [k + 1 .. k + node_count c] @ [k + node_count c + 1 .. k + node_count c + node_count_list cs]"
    using node_count_pos [of c] node_count_list_nonneg [of cs]
    by (subst upto_split2 [of "k + 1" "k + node_count c"]) (simp_all add: add.assoc)
  with 3 show ?case by simp
qed

text \<open>
  A new row has the parent its call was given, or a parent among the new ids that is
  smaller than its own id.
\<close>

lemma preorder_rows_parents:
  "r \<in> set (preorder_rows item parent k) \<Longrightarrow>
     row_parent_id r = parent \<or> (\<exists>j. row_parent_id r = Some j \<and> k < j \<and> j < row_id r)"
  and preorder_rows_list_parents:
  "r \<in> set (preorder_rows_list cs p k) \<Longrightarrow>
     row_parent_id r = Some p \<or> (\<exists>j. row_parent_id r = Some j \<and> k < j \<and> j < row_id r)"
proof (induction item parent k and cs p k arbitrary: r and r
    rule: preorder_rows_preorder_rows_list.induct)
  case (1 nm dt ch parent k)
  show ?case
  proof (cases "r = \<lparr>row_id = k + 1, row_name = nm, row_data = dt, row_parent_id = parent\<rparr>")
    case True
    then show ?thesis by simp
  next
    case False
    with "1.prems" obtain cs where ch: "ch = Some cs"
      and r: "r \<in> set (preorder_rows_list cs (k + 1) (k + 1))"
      by (auto split: option.splits)
    from r have "row_id r \<in> set (map row_id (preorder_rows_list cs (k + 1) (k + 1)))"
      by simp
    then have "k + 1 < row_id r" by (simp add: preorder_rows_list_ids)
    with "1.IH" [OF ch r] show ?thesis by auto
  qed
next
  case (2 parent k)
  then show ?case by simp
next
  case (3 c cs parent k)
  from "3.prems" consider "r \<in> set (preorder_rows c (Some parent) k)"
    | "r \<in> set (preorder_rows_list cs parent (k + node_count c))"
    by auto
  then show ?case
  proof cases
    case 1
    then show ?thesis using "3.IH"(1) by blast
  next
    case 2
    then show ?thesis using "3.IH"(2) [OF 2] node_count_pos [of c] by auto
  qed
qed

lemma preorder_rows_id_range:
  "r \<in> set (preorder_rows item parent k) \<Longrightarrow> k < row_id r \<and> row_id r \<le> k + node_count item"
proof -
  assume "r \<in> set (preorder_rows item parent k)"
  then have "row_id r \<in> set (map row_id (preorder_rows item parent k))" by simp
  then show ?thesis by (simp add: preorder_rows_ids)
qed

lemma preorder_rows_list_id_range:
  "r \<in> set (preorder_rows_list cs p k) \<Longrightarrow> k < row_id r \<and> row_id r \<le> k + node_count_list cs"
proof -
  assume "r \<in> set (preorder_rows_list cs p k)"
  then have "row_id r \<in> set (map row_id (preorder_rows_list cs p k))" by simp
  then show ?thesis by (simp add: preorder_rows_list_ids)
qed

lemma create_tree_item_rows:
  "create_tree_item item s =
     ([(''message'', JStr ''Tree replaced successfully''), (''root_id'', JNum (last_id s + 1))],
      \<lparr>rows = preorder_rows item None (last_id s),
       last_id = last_id s + node_count item,
       journal = journal s @ DeleteAll # map Insert (preorder_rows item None (last_id s))\<rparr>)"
  by (simp add: create_tree_item_def insert_tree_recursive_rows exec_delete_all_def)

text \<open>
  Claim C5. \<^verbatim>\<open>POST /api/tree\<close> sends \<^verbatim>\<open>DELETE FROM tree_items\<close> first and then one
  \<^verbatim>\<open>INSERT\<close> for each row of the table it leaves, in the order of the table: the
  table holds the pre-order rows of the input and nothing else. The first row is the
  root, with a null parent and the id the reply returns as \<^verbatim>\<open>root_id\<close>; the ids are the
  next ones of the counter, so all are above every id handed out before; every other
  row has a parent among the new rows. Where the ids of the old rows are ones the
  counter has handed out, no id of an old row is the id of a row of the new table.
\<close>

theorem replace_tree:
  assumes "create_tree_item item s = (reply, s')"
  shows "reply = [(''message'', JStr ''Tree replaced successfully''),
                  (''root_id'', JNum (last_id s + 1))]
    \<and> journal s' = journal s @ DeleteAll # map Insert (rows s')
    \<and> rows s' = preorder_rows item None (last_id s)
    \<and> hd (rows s') = \<lparr>row_id = last_id s + 1, row_name = item_name item,
                        row_data = item_data item, row_parent_id = None\<rparr>
    \<and> map row_id (rows s') = [last_id s + 1 .. last_id s + node_count item]
    \<and> (\<forall>r \<in> set (tl (rows s')).
          \<exists>j. row_parent_id r = Some j \<and> last_id s < j \<and> j < row_id r)
    \<and> ((\<forall>r \<in> set (rows s). row_id r \<le> last_id s)
          \<longrightarrow> row_id ` set (rows s) \<inter> row_id ` set (rows s') = {})"
proof -
  from assms have reply: "reply = [(''message'', JStr ''Tree replaced successfully''),
                  (''root_id'', JNum (last_id s + 1))]"
    and rows: "rows s' = preorder_rows item None (last_id s)"
    and journal: "journal s' = journal s @ DeleteAll # map Insert (rows s')"
    by (auto simp: create_tree_item_rows)
  obtain nm dt ch where item: "item = TreeItemCreate nm dt ch" by (cases item)
  have hd: "hd (rows s') = \<lparr>row_id = last_id s + 1, row_name = item_name item,
                        row_data = item_data item, row_parent_id = None\<rparr>"
    by (simp add: rows item)
  have ids: "map row_id (rows s') = [last_id s + 1 .. last_id s + node_count item]"
    by (simp only: rows preorder_rows_ids)
  have "\<exists>j. row_parent_id r = Some j \<and> last_id s < j \<and> j < row_id r"
    if "r \<in> set (tl (rows s'))" for r
  proof -
    from that obtain cs where "r \<in> set (preorder_rows_list cs (last_id s + 1) (last_id s + 1))"
      by (auto simp: rows item split: option.splits)
    from preorder_rows_list_parents [OF this] preorder_rows_list_id_range [OF this]
    show ?thesis by auto
  qed
  moreover have "row_id ` set (rows s) \<inter> row_id ` set (rows s') = {}"
    if "\<forall>r \<in> set (rows s). row_id r \<le> last_id s"
  proof -
    have "last_id s < row_id r" if "r \<in> set (rows s')" for r
      using that preorder_rows_id_range [of r item None "last_id s"] by (simp add: rows)
    with \<open>\<forall>r \<in> set (rows s). row_id r \<le> last_id s\<close> show ?thesis by fastforce
  qed
  ultimately show ?thesis using reply rows journal hd ids by blast
qed

lemma create_example:
  "create_tree_item example_item example_db =
     ([(''message'', JStr ''Tree replaced successfully''), (''root_id'', JNum 5)], replaced_db)"
  by (simp add: create_tree_item_def exec_delete_all_def exec_insert_def Let_def
      example_item_def example_db_def replaced_db_def replaced_rows_def)

theorem replace_tree_witness:
  "create_tree_item example_item example_db =
     ([(''message'', JStr ''Tree replaced successfully''), (''root_id'', JNum 5)], replaced_db)
   \<and> journal replaced_db = journal example_db @ DeleteAll # map Insert (rows replaced_db)
   \<and> rows replaced_db = preorder_rows example_item None (last_id example_db)
   \<and> hd (rows replaced_db) = \<lparr>row_id = last_id example_db + 1,
         row_name = item_name example_item, row_data = item_data example_item,
         row_parent_id = None\<rparr>
   \<and> map row_id (rows replaced_db)
       = [last_id example_db + 1 .. last_id example_db + node_count example_item]
   \<and> row_id ` set (rows example_db) \<inter> row_id ` set (rows replaced_db) = {}"
proof -
  have "\<forall>r \<in> set (rows example_db). row_id r \<le> last_id example_db"
    by (simp add: example_db_def example_rows_def)
  with replace_tree [OF create_example] create_example show ?thesis by blast
qed

section \<open>Names\<close>

lemma preorder_rows_names:
  "map row_name (preorder_rows item parent k) = item_names item"
  and preorder_rows_list_names:
  "map row_name (preorder_rows_list cs p k) = item_names_list cs"
  by (induction item parent k and cs p k rule: preorder_rows_preorder_rows_list.induct)
    (auto split: option.splits)

lemma validate_items_each:
  "validate_items xs = Inr cs \<Longrightarrow> x \<in> set xs \<Longrightarrow> \<exists>c. validate_TreeItemCreate x = Inr c"
  by (induction xs arbitrary: cs) (auto split: sum.splits)

lemma validate_has_string_name:
  "validate_TreeItemCreate x = Inr item \<Longrightarrow> has_string_name x"
  by (cases x) (auto split: option.splits json.splits)

lemma validate_nodes:
  assumes "x \<in> json_nodes body" and "validate_TreeItemCreate body = Inr item"
  shows "\<exists>c. validate_TreeItemCreate x = Inr c"
  using assms
proof (induction rule: json_nodes.induct)
  case top
  then show ?case by blast
next
  case (child kvs xs x)
  then obtain c where "validate_TreeItemCreate (JObj kvs) = Inr c" by blast
  with child.hyps(2) obtain cs where "validate_items xs = Inr cs"
    by (auto split: option.splits json.splits sum.splits)
  then show ?case using child.hyps(3) by (rule validate_items_each)
qed

lemma validate_error: "validate_TreeItemCreate x = Inl e \<Longrightarrow> e = RequestValidationError"
  and validate_items_error: "validate_items xs = Inl e \<Longrightarrow> e = RequestValidationError"
  by (induction x and xs arbitrary: e and e rule: validate_TreeItemCreate_validate_items.induct)
    (auto split: option.splits json.splits sum.splits simp: validate_optional_str_def)

text \<open>
  Claim C7, as stated, fails: \<^verbatim>\<open>name: str\<close> accepts the empty string. The body
  \<^verbatim>\<open>{"name": ""}\<close> passes validation and \<^verbatim>\<open>POST /api/tree\<close> stores a row with the
  empty name.
\<close>

theorem empty_name_accepted:
  "post_api_tree (JObj [(''name'', JStr '''')]) empty_db =
     (Inr [(''message'', JStr ''Tree replaced successfully''), (''root_id'', JNum 1)],
      \<lparr>rows = [\<lparr>row_id = 1, row_name = '''', row_data = None, row_parent_id = None\<rparr>],
       last_id = 1,
       journal = [DeleteAll,
         Insert \<lparr>row_id = 1, row_name = '''', row_data = None, row_parent_id = None\<rparr>]\<rparr>)"
  by (simp add: post_api_tree_def get_field_def validate_optional_str_def create_tree_item_def
      exec_delete_all_def exec_insert_def Let_def empty_db_def)

text \<open>
  Claim C7, amended. A name is any string, the empty one included. A body in which
  some node (the body itself or a nested child at any depth) is not an object with a
  string under \<^verbatim>\<open>name\<close> is rejected with a validation error and the database is
  untouched. A body that is accepted fits the model, and the names of the stored rows
  are the names of its nodes as given, in pre-order.
\<close>

theorem missing_name_rejected:
  "(x \<in> json_nodes body \<and> \<not> has_string_name x
      \<longrightarrow> post_api_tree body s = (Inl RequestValidationError, s))
   \<and> (post_api_tree body' s0 = (Inr reply, s')
      \<longrightarrow> (\<exists>item. validate_TreeItemCreate body' = Inr item
            \<and> map row_name (rows s') = item_names item))"
proof (intro conjI impI)
  assume a: "x \<in> json_nodes body \<and> \<not> has_string_name x"
  have "validate_TreeItemCreate body = Inl RequestValidationError"
  proof (cases "validate_TreeItemCreate body")
    case (Inl e)
    then show ?thesis using validate_error by blast
  next
    case (Inr item)
    with a obtain c where "validate_TreeItemCreate x = Inr c"
      using validate_nodes by blast
    then have "has_string_name x" by (rule validate_has_string_name)
    with a show ?thesis by simp
  qed
  then show "post_api_tree body s = (Inl RequestValidationError, s)"
    by (simp add: post_api_tree_def)
next
  assume "post_api_tree body' s0 = (Inr reply, s')"
  then show "\<exists>item. validate_TreeItemCreate body' = Inr item
            \<and> map row_name (rows s') = item_names item"
    by (auto simp: post_api_tree_def create_tree_item_rows preorder_rows_names
        split: sum.splits)
qed

theorem missing_name_rejected_witness:
  "(JObj [(''data'', JStr ''d'')]
       \<in> json_nodes (JObj [(''name'', JStr ''root''),
                            (''children'', JArr [JObj [(''data'', JStr ''d'')]])])
     \<and> \<not> has_string_name (JObj [(''data'', JStr ''d'')]))
   \<and> post_api_tree (JObj [(''name'', JStr ''root''),
                            (''children'', JArr [JObj [(''data'', JStr ''d'')]])]) example_db
       = (Inl RequestValidationError, example_db)
   \<and> post_api_tree (JObj [(''name'', JStr ''n'')]) empty_db
       = (Inr [(''message'', JStr ''Tree replaced successfully''), (''root_id'', JNum 1)],
          \<lparr>rows = [\<lparr>row_id = 1, row_name = ''n'', row_data = None, row_parent_id = None\<rparr>],
           last_id = 1,
           journal = [DeleteAll,
             Insert \<lparr>row_id = 1, row_name = ''n'', row_data = None, row_parent_id = None\<rparr>]\<rparr>)
   \<and> (\<exists>item. validate_TreeItemCreate (JObj [(''name'', JStr ''n'')]) = Inr item
         \<and> map row_name (rows
              \<lparr>rows = [\<lparr>row_id = 1, row_name = ''n'', row_data = None, row_parent_id = None\<rparr>],
               last_id = 1,
               journal = [DeleteAll,
                 Insert \<lparr>row_id = 1, row_name = ''n'', row_data = None, row_parent_id = None\<rparr>]\<rparr>)
            = item_names item)"
proof -
  have "JObj [(''name'', JStr ''root''), (''children'', JArr [JObj [(''data'', JStr ''d'')]])]
      \<in> json_nodes (JObj [(''name'', JStr ''root''),
                            (''children'', JArr [JObj [(''data'', JStr ''d'')]])])"
    by (rule json_nodes.top)
  then have "JObj [(''data'', JStr ''d'')]
      \<in> json_nodes (JObj [(''name'', JStr ''root''),
                            (''children'', JArr [JObj [(''data'', JStr ''d'')]])])"
    by (rule json_nodes.child) (simp add: get_field_def, simp)
  then have h1: "JObj [(''data'', JStr ''d'')]
       \<in> json_nodes (JObj [(''name'', JStr ''root''),
                            (''children'', JArr [JObj [(''data'', JStr ''d'')]])])
     \<and> \<not> has_string_name (JObj [(''data'', JStr ''d'')])"
    by (simp add: get_field_def)
  have h2: "post_api_tree (JObj [(''name'', JStr ''n'')]) empty_db
       = (Inr [(''message'', JStr ''Tree replaced successfully''), (''root_id'', JNum 1)],
          \<lparr>rows = [\<lparr>row_id = 1, row_name = ''n'', row_data = None, row_parent_id = None\<rparr>],
           last_id = 1,
           journal = [DeleteAll,
             Insert \<lparr>row_id = 1, row_name = ''n'', row_data = None, row_parent_id = None\<rparr>]\<rparr>)"
    by (simp add: post_api_tree_def get_field_def validate_optional_str_def create_tree_item_def
        exec_delete_all_def exec_insert_def Let_def empty_db_def)
  from missing_name_rejected [of "JObj [(''data'', JStr ''d'')]"
      "JObj [(''name'', JStr ''root''), (''children'', JArr [JObj [(''data'', JStr ''d'')]])]"
      example_db "JObj [(''name'', JStr ''n'')]" empty_db] h1 h2
  show ?thesis by blast
qed

section \<open>Deleting a subtree\<close>

text \<open>The subtree of a node is the node and the subtrees of its children.\<close>

lemma subtree_ids_trans:
  assumes "x \<in> subtree_ids rs c" and "c \<in> subtree_ids rs nid"
  shows "x \<in> subtree_ids rs nid"
  using assms
  by (induction rule: subtree_ids.induct) (auto intro: subtree_ids.child)

lemma subtree_ids_unfold:
  "subtree_ids rs nid =
     insert nid (\<Union>r \<in> {r \<in> set rs. row_parent_id r = Some nid}. subtree_ids rs (row_id r))"
proof (intro set_eqI iffI)
  fix x
  assume "x \<in> subtree_ids rs nid"
  then show "x \<in> insert nid
      (\<Union>r \<in> {r \<in> set rs. row_parent_id r = Some nid}. subtree_ids rs (row_id r))"
  proof (induction rule: subtree_ids.induct)
    case root
    then show ?case by simp
  next
    case (child p r)
    then show ?case
      by (auto intro: subtree_ids.root subtree_ids.child)
  qed
next
  fix x
  assume "x \<in> insert nid
      (\<Union>r \<in> {r \<in> set rs. row_parent_id r = Some nid}. subtree_ids rs (row_id r))"
  then consider "x = nid"
    | r where "r \<in> set rs" "row_parent_id r = Some nid" "x \<in> subtree_ids rs (row_id r)"
    by auto
  then show "x \<in> subtree_ids rs nid"
  proof cases
    case 1
    then show ?thesis by (simp add: subtree_ids.root)
  next
    case 2
    from 2(1,2) have "row_id r \<in> subtree_ids rs nid"
      by (auto intro: subtree_ids.root subtree_ids.child)
    with 2(3) show ?thesis by (rule subtree_ids_trans)
  qed
qed

text \<open>
  Removing the rows of a set of ids that is closed under the child relation does not
  change which of the remaining ids are in a subtree.
\<close>

lemma subtree_ids_filter:
  assumes closed: "\<And>r p. r \<in> set rs \<Longrightarrow> row_parent_id r = Some p \<Longrightarrow> p \<in> D \<Longrightarrow> row_id r \<in> D"
    and x: "x \<notin> D"
  shows "x \<in> subtree_ids (filter (\<lambda>r. row_id r \<notin> D) rs) c \<longleftrightarrow> x \<in> subtree_ids rs c"
proof
  assume "x \<in> subtree_ids (filter (\<lambda>r. row_id r \<notin> D) rs) c"
  then show "x \<in> subtree_ids rs c"
    by (induction rule: subtree_ids.induct) (auto intro: subtree_ids.root subtree_ids.child)
next
  assume "x \<in> subtree_ids rs c"
  then have "x \<notin> D \<longrightarrow> x \<in> subtree_ids (filter (\<lambda>r. row_id r \<notin> D) rs) c"
  proof (induction rule: subtree_ids.induct)
    case root
    then show ?case by (simp add: subtree_ids.root)
  next
    case (child p r)
    show ?case
    proof
      assume nd: "row_id r \<notin> D"
      with closed child.hyps(2,3) have "p \<notin> D" by blast
      with child.IH have "p \<in> subtree_ids (filter (\<lambda>r. row_id r \<notin> D) rs) c" by simp
      moreover from nd child.hyps(2) have "r \<in> set (filter (\<lambda>r. row_id r \<notin> D) rs)" by simp
      ultimately show "row_id r \<in> subtree_ids (filter (\<lambda>r. row_id r \<notin> D) rs) c"
        using child.hyps(3) by (rule subtree_ids.child)
    qed
  qed
  with x show "x \<in> subtree_ids (filter (\<lambda>r. row_id r \<notin> D) rs) c" by simp
qed

text \<open>
  A recursive delete that returns has removed the rows whose id is in the subtree of
  the node, and nothing else; the loop over a list of nodes has removed the rows of the
  subtrees of all of them.
\<close>

lemma delete_recursive_rows:
  "delete_recursive n nid s = Some s' \<Longrightarrow>
     rows s' = filter (\<lambda>r. row_id r \<notin> subtree_ids (rows s) nid) (rows s)
     \<and> last_id s' = last_id s"
  and delete_children_rows:
  "delete_children n cs s = Some s' \<Longrightarrow>
     rows s' = filter (\<lambda>r. row_id r \<notin> (\<Union>c \<in> set cs. subtree_ids (rows s) c)) (rows s)
     \<and> last_id s' = last_id s"
proof (induction n nid s and n cs s arbitrary: s' and s'
    rule: delete_recursive_delete_children.induct)
  case (1 nid s)
  then show ?case by simp
next
  case (2 n nid s)
  from "2.prems" obtain s1 where s1: "delete_children n (fetch_children s nid) s = Some s1"
    and s': "s' = exec_delete_by_id nid s1"
    by (auto split: option.splits)
  have cs: "(\<Union>c \<in> set (fetch_children s nid). subtree_ids (rows s) c)
      = (\<Union>r \<in> {r \<in> set (rows s). row_parent_id r = Some nid}. subtree_ids (rows s) (row_id r))"
    by (auto simp: fetch_children_def)
  from "2.IH" [OF s1] s' show ?case
    by (subst subtree_ids_unfold) (auto simp: exec_delete_by_id_def cs intro: filter_cong)
next
  case (3 n s)
  then show ?case by simp
next
  case (4 n c cs s)
  from "4.prems" obtain s1 where s1: "delete_recursive n c s = Some s1"
    and s': "delete_children n cs s1 = Some s'"
    by (auto split: option.splits)
  let ?D = "subtree_ids (rows s) c"
  from "4.IH"(1) [OF s1] have r1: "rows s1 = filter (\<lambda>r. row_id r \<notin> ?D) (rows s)"
    and l1: "last_id s1 = last_id s" by simp_all
  from "4.IH"(2) [OF s1 s'] have r2:
    "rows s' = filter (\<lambda>r. row_id r \<notin> (\<Union>c \<in> set cs. subtree_ids (rows s1) c)) (rows s1)"
    and l2: "last_id s' = last_id s1" by simp_all
  have closed: "\<And>r p. r \<in> set (rows s) \<Longrightarrow> row_parent_id r = Some p \<Longrightarrow> p \<in> ?D \<Longrightarrow> row_id r \<in> ?D"
    by (rule subtree_ids.child)
  have "x \<in> subtree_ids (rows s1) c' \<longleftrightarrow> x \<in> subtree_ids (rows s) c'" if "x \<notin> ?D" for x c'
    unfolding r1 using closed that by (rule subtree_ids_filter)
  then have "rows s' = filter (\<lambda>r. row_id r \<notin> (\<Union>c \<in> set (c # cs). subtree_ids (rows s) c)) (rows s)"
    unfolding r2 r1 by (auto intro: filter_cong)
  with l1 l2 show ?case by simp
qed

lemma parents_first_filter: "parents_first rs \<Longrightarrow> parents_first (filter P rs)"
  by (simp add: parents_first_def list_all_iff)

text \<open>
  On a table where parents have smaller ids than their children, the recursion of the
  delete goes to greater ids only and returns within a depth of the largest id minus
  the id it starts from.
\<close>

lemma delete_recursive_returns:
  "parents_first (rows s) \<Longrightarrow> \<forall>r \<in> set (rows s). row_id r \<le> b \<Longrightarrow> nat (b - nid) < n
     \<Longrightarrow> delete_recursive n nid s \<noteq> None"
  and delete_children_returns:
  "parents_first (rows s) \<Longrightarrow> \<forall>r \<in> set (rows s). row_id r \<le> b
     \<Longrightarrow> \<forall>c \<in> set cs. nat (b - c) < n
     \<Longrightarrow> delete_children n cs s \<noteq> None"
proof (induction n nid s and n cs s rule: delete_recursive_delete_children.induct)
  case (1 nid s)
  then show ?case by simp
next
  case (2 n nid s)
  have "nat (b - c) < n" if "c \<in> set (fetch_children s nid)" for c
  proof -
    from that obtain r where r: "r \<in> set (rows s)" "row_parent_id r = Some nid" "c = row_id r"
      by (auto simp: fetch_children_def)
    with "2.prems"(1) have "nid < c" by (auto simp: parents_first_def list_all_iff)
    moreover from r "2.prems"(2) have "c \<le> b" by simp
    ultimately show ?thesis using "2.prems"(3) by linarith
  qed
  with "2.IH" "2.prems"(1,2) have "delete_children n (fetch_children s nid) s \<noteq> None"
    by blast
  then show ?case by auto
next
  case (3 n s)
  then show ?case by simp
next
  case (4 n c cs s)
  from "4.IH"(1) "4.prems" obtain s1 where s1: "delete_recursive n c s = Some s1"
    by fastforce
  from delete_recursive_rows [OF s1] have "rows s1 = filter (\<lambda>r. row_id r \<notin> subtree_ids (rows s) c) (rows s)"
    by simp
  with "4.prems"(1,2) have "parents_first (rows s1)" "\<forall>r \<in> set (rows s1). row_id r \<le> b"
    by (simp_all add: parents_first_filter)
  with "4.IH"(2) [OF s1] "4.prems"(3) have "delete_children n cs s1 \<noteq> None" by simp
  with s1 show ?case by simp
qed

lemma children_first_append:
  "children_first rs (ds @ es) \<longleftrightarrow>
     children_first rs ds \<and> children_first (filter (\<lambda>r. row_id r \<notin> set ds) rs) es"
proof (induction ds arbitrary: rs)
  case Nil
  then show ?case by simp
next
  case (Cons d ds)
  have "filter (\<lambda>r. row_id r \<notin> set ds) (filter (\<lambda>r. row_id r \<noteq> d) rs)
      = filter (\<lambda>r. row_id r \<notin> set (d # ds)) rs"
    by (auto intro: filter_cong)
  with Cons show ?case by auto
qed

text \<open>
  The statements of a recursive delete: deletes by id only, the node's own id last,
  each of an id that no remaining row references.
\<close>

lemma delete_recursive_journal:
  "delete_recursive n nid s = Some s' \<Longrightarrow>
     \<exists>ds. journal s' = journal s @ map DeleteById (ds @ [nid])
       \<and> rows s' = filter (\<lambda>r. row_id r \<notin> set (ds @ [nid])) (rows s)
       \<and> children_first (rows s) (ds @ [nid])"
  and delete_children_journal:
  "delete_children n cs s = Some s' \<Longrightarrow>
     \<exists>ds. journal s' = journal s @ map DeleteById ds
       \<and> rows s' = filter (\<lambda>r. row_id r \<notin> set ds) (rows s)
       \<and> children_first (rows s) ds"
proof (induction n nid s and n cs s arbitrary: s' and s'
    rule: delete_recursive_delete_children.induct)
  case (1 nid s)
  then show ?case by simp
next
  case (2 n nid s)
  from "2.prems" obtain s1 where s1: "delete_children n (fetch_children s nid) s = Some s1"
    and s': "s' = exec_delete_by_id nid s1"
    by (auto split: option.splits)
  from "2.IH" [OF s1] obtain ds where j: "journal s1 = journal s @ map DeleteById ds"
    and r: "rows s1 = filter (\<lambda>r. row_id r \<notin> set ds) (rows s)"
    and cf: "children_first (rows s) ds"
    by blast
  have "row_parent_id r \<noteq> Some nid" if "r \<in> set (rows s1)" for r
  proof
    assume p: "row_parent_id r = Some nid"
    from that delete_children_rows [OF s1]
    have "r \<in> set (rows s)"
      and "row_id r \<notin> (\<Union>c \<in> set (fetch_children s nid). subtree_ids (rows s) c)"
      by simp_all
    moreover from \<open>r \<in> set (rows s)\<close> p have "row_id r \<in> set (fetch_children s nid)"
      by (auto simp: fetch_children_def)
    ultimately show False by (auto intro: subtree_ids.root)
  qed
  then have "children_first (rows s1) [nid]" by (simp add: list_all_iff)
  with cf r have "children_first (rows s) (ds @ [nid])"
    by (simp add: children_first_append)
  moreover from s' j have "journal s' = journal s @ map DeleteById (ds @ [nid])"
    by (simp add: exec_delete_by_id_def)
  moreover from s' r have "rows s' = filter (\<lambda>r. row_id r \<notin> set (ds @ [nid])) (rows s)"
    by (auto simp: exec_delete_by_id_def intro: filter_cong)
  ultimately show ?case by blast
next
  case (3 n s)
  then have "journal s' = journal s @ map DeleteById []
       \<and> rows s' = filter (\<lambda>r. row_id r \<notin> set []) (rows s)
       \<and> children_first (rows s) []" by simp
  then show ?case by blast
next
  case (4 n c cs s)
  from "4.prems" obtain s1 where s1: "delete_recursive n c s = Some s1"
    and s': "delete_children n cs s1 = Some s'"
    by (auto split: option.splits)
  from "4.IH"(1) [OF s1] obtain ds where j1: "journal s1 = journal s @ map DeleteById (ds @ [c])"
    and r1: "rows s1 = filter (\<lambda>r. row_id r \<notin> set (ds @ [c])) (rows s)"
    and c1: "children_first (rows s) (ds @ [c])"
    by blast
  from "4.IH"(2) [OF s1 s'] obtain es where j2: "journal s' = journal s1 @ map DeleteById es"
    and r2: "rows s' = filter (\<lambda>r. row_id r \<notin> set es) (rows s1)"
    and c2: "children_first (rows s1) es"
    by blast
  from j1 j2 have "journal s' = journal s @ map DeleteById ((ds @ [c]) @ es)" by simp
  moreover from r1 r2 have "rows s' = filter (\<lambda>r. row_id r \<notin> set ((ds @ [c]) @ es)) (rows s)"
    by (auto intro: filter_cong)
  moreover from c1 c2 r1 have "children_first (rows s) ((ds @ [c]) @ es)"
    by (simp only: children_first_append [of _ "ds @ [c]" es])
  ultimately show ?case by blast
qed

lemma delete_tree_item_returns:
  assumes "parents_first (rows s)"
  shows "\<exists>n. delete_tree_item n item_id s \<noteq> None"
proof -
  define b where "b = Max (insert 0 (row_id ` set (rows s)))"
  have "\<forall>r \<in> set (rows s). row_id r \<le> b"
    by (simp add: b_def)
  with assms have "delete_recursive (Suc (nat (b - item_id))) item_id s \<noteq> None"
    by (rule delete_recursive_returns) simp
  then have "delete_tree_item (Suc (nat (b - item_id))) item_id s \<noteq> None"
    by (auto simp: delete_tree_item_def split: option.splits)
  then show ?thesis ..
qed

lemma children_first_split:
  assumes "children_first rs (pre @ d # post)" and "r \<in> set rs" and "row_parent_id r = Some d"
  shows "row_id r \<in> set pre"
proof (rule ccontr)
  assume "row_id r \<notin> set pre"
  with assms(2) have "r \<in> set (filter (\<lambda>r. row_id r \<notin> set pre) rs)" by simp
  moreover from assms(1) have "list_all (\<lambda>r. row_parent_id r \<noteq> Some d) (filter (\<lambda>r. row_id r \<notin> set pre) rs)"
    by (simp add: children_first_append)
  ultimately show False using assms(3) by (simp add: list_all_iff)
qed

text \<open>
  The subtree of a node, from the child query; on the example, the subtree of \<open>b\<close>.
\<close>

lemma subtree_ids_children:
  "subtree_ids rs nid =
     insert nid (\<Union>c \<in> set (map row_id (filter (\<lambda>r. row_parent_id r = Some nid) rs)).
       subtree_ids rs c)"
  by (subst subtree_ids_unfold) auto

lemma subtree_ids_example: "subtree_ids (rows example_db) 3 = {3, 4}"
proof -
  have "subtree_ids (rows example_db) 4 = {4}"
    by (subst subtree_ids_children) (simp add: example_db_def example_rows_def)
  then show ?thesis
    by (subst subtree_ids_children) (simp add: example_db_def example_rows_def)
qed


text \<open>
  Claim C4. Let the id be that of a row of the table. Where parents have smaller ids
  than their children, \<^verbatim>\<open>DELETE /api/tree/{id}\<close> returns for a large enough recursion
  depth. Whenever it returns, it reports success, and \<^verbatim>\<open>GET /api/tree/all\<close> afterwards
  is what it was before without the rows whose id is in the subtree of the node: none
  of the node and its descendants is left, and every other row remains, unchanged and
  in the same order.
\<close>

theorem delete_removes_subtree:
  assumes "fetch_one_by_id s item_id \<noteq> None"
  shows "(parents_first (rows s) \<longrightarrow> (\<exists>n. delete_tree_item n item_id s \<noteq> None))
    \<and> (delete_tree_item n item_id s = Some (res, s') \<longrightarrow>
         res = Inr [(''item_id'', JNum item_id),
                    (''message'', JStr ''Item and children deleted successfully'')]
       \<and> retrieve_all_items s'
           = filter (\<lambda>r. row_id r \<notin> subtree_ids (rows s) item_id) (retrieve_all_items s)
       \<and> (\<forall>x \<in> subtree_ids (rows s) item_id. x \<notin> row_id ` set (retrieve_all_items s'))
       \<and> (\<forall>r \<in> set (rows s).
             row_id r \<notin> subtree_ids (rows s) item_id \<longrightarrow> r \<in> set (retrieve_all_items s')))"
proof (intro conjI impI)
  assume "parents_first (rows s)"
  then show "\<exists>n. delete_tree_item n item_id s \<noteq> None"
    by (rule delete_tree_item_returns)
next
  assume d: "delete_tree_item n item_id s = Some (res, s')"
  with assms show "res = Inr [(''item_id'', JNum item_id),
                    (''message'', JStr ''Item and children deleted successfully'')]"
    by (auto simp: delete_tree_item_def split: option.splits)
  from d assms have "delete_recursive n item_id s = Some s'"
    by (auto simp: delete_tree_item_def split: option.splits)
  then have "rows s' = filter (\<lambda>r. row_id r \<notin> subtree_ids (rows s) item_id) (rows s)"
    by (simp add: delete_recursive_rows)
  then show eq: "retrieve_all_items s'
      = filter (\<lambda>r. row_id r \<notin> subtree_ids (rows s) item_id) (retrieve_all_items s)"
    by (simp add: retrieve_all_items_def fetch_all_ordered_def filter_sort)
  show "\<forall>x \<in> subtree_ids (rows s) item_id. x \<notin> row_id ` set (retrieve_all_items s')"
    unfolding eq by auto
  show "\<forall>r \<in> set (rows s).
      row_id r \<notin> subtree_ids (rows s) item_id \<longrightarrow> r \<in> set (retrieve_all_items s')"
    unfolding eq by (simp add: retrieve_all_items_def fetch_all_ordered_def)
qed

theorem delete_removes_subtree_witness:
  "fetch_one_by_id example_db 3 \<noteq> None
   \<and> parents_first (rows example_db)
   \<and> delete_tree_item 2 3 example_db
       = Some (Inr [(''item_id'', JNum 3),
                    (''message'', JStr ''Item and children deleted successfully'')],
               example_db_without_b)
   \<and> (\<exists>n. delete_tree_item n 3 example_db \<noteq> None)
   \<and> subtree_ids (rows example_db) 3 = {3, 4}
   \<and> retrieve_all_items example_db_without_b
       = filter (\<lambda>r. row_id r \<notin> subtree_ids (rows example_db) 3)
           (retrieve_all_items example_db)
   \<and> 3 \<notin> row_id ` set (retrieve_all_items example_db_without_b)
   \<and> 4 \<notin> row_id ` set (retrieve_all_items example_db_without_b)
   \<and> rows example_db ! 0 \<in> set (retrieve_all_items example_db_without_b)
   \<and> rows example_db ! 1 \<in> set (retrieve_all_items example_db_without_b)"
proof -
  have h1: "fetch_one_by_id example_db 3 \<noteq> None"
    by (simp add: fetch_one_by_id_def example_db_def example_rows_def)
  have h2: "parents_first (rows example_db)"
    by (simp add: parents_first_def example_db_def example_rows_def)
  have h3: "delete_tree_item 2 3 example_db
       = Some (Inr [(''item_id'', JNum 3),
                    (''message'', JStr ''Item and children deleted successfully'')],
               example_db_without_b)"
    by (simp add: delete_tree_item_def fetch_one_by_id_def fetch_children_def
        exec_delete_by_id_def numeral_2_eq_2
        example_db_def example_rows_def example_db_without_b_def)
  have m: "rows example_db ! 0 \<in> set (rows example_db)
      \<and> row_id (rows example_db ! 0) \<notin> subtree_ids (rows example_db) 3
      \<and> rows example_db ! 1 \<in> set (rows example_db)
      \<and> row_id (rows example_db ! 1) \<notin> subtree_ids (rows example_db) 3"
    unfolding subtree_ids_example by (simp add: example_db_def example_rows_def)
  have i: "(3::int) \<in> {3, 4} \<and> (4::int) \<in> {3, 4}" by simp
  from delete_removes_subtree [OF h1, of 2 _ example_db_without_b] h1 h2 h3 m i
    subtree_ids_example
  show ?thesis by (simp (no_asm_use)) blast
qed

text \<open>
  Claim C6. Where parents have smaller ids than their children the delete returns for
  a large enough recursion depth. Whenever it returns, the statements it has sent are
  deletes by id, and replaying them on the table each one deletes an id that no row
  still in the table references: when the row of a node is deleted, every row that
  had the node as its parent has been deleted by an earlier statement.
\<close>

theorem delete_post_order:
  "(parents_first (rows s) \<longrightarrow> (\<exists>n. delete_tree_item n item_id s \<noteq> None))
   \<and> (delete_tree_item n item_id s = Some (res, s') \<longrightarrow>
        (\<exists>ds. journal s' = journal s @ map DeleteById ds
           \<and> children_first (rows s) ds
           \<and> (\<forall>pre d post. ds = pre @ d # post \<longrightarrow>
                 (\<forall>r \<in> set (rows s). row_parent_id r = Some d \<longrightarrow> row_id r \<in> set pre))))"
proof (intro conjI impI)
  assume "parents_first (rows s)"
  then show "\<exists>n. delete_tree_item n item_id s \<noteq> None"
    by (rule delete_tree_item_returns)
next
  assume d: "delete_tree_item n item_id s = Some (res, s')"
  have "\<exists>ds. journal s' = journal s @ map DeleteById ds \<and> children_first (rows s) ds"
  proof (cases "fetch_one_by_id s item_id")
    case None
    with d have "journal s' = journal s @ map DeleteById [] \<and> children_first (rows s) []"
      by (simp add: delete_tree_item_def)
    then show ?thesis by blast
  next
    case (Some existing)
    with d have "delete_recursive n item_id s = Some s'"
      by (auto simp: delete_tree_item_def split: option.splits)
    from delete_recursive_journal [OF this] show ?thesis by blast
  qed
  then obtain ds where j: "journal s' = journal s @ map DeleteById ds"
    and c: "children_first (rows s) ds"
    by blast
  from c have "\<forall>pre d post. ds = pre @ d # post \<longrightarrow>
      (\<forall>r \<in> set (rows s). row_parent_id r = Some d \<longrightarrow> row_id r \<in> set pre)"
    by (auto dest: children_first_split)
  with j c show "\<exists>ds. journal s' = journal s @ map DeleteById ds
           \<and> children_first (rows s) ds
           \<and> (\<forall>pre d post. ds = pre @ d # post \<longrightarrow>
                 (\<forall>r \<in> set (rows s). row_parent_id r = Some d \<longrightarrow> row_id r \<in> set pre))"
    by blast
qed

theorem delete_post_order_witness:
  "parents_first (rows example_db)
   \<and> delete_tree_item 3 1 example_db
       = Some (Inr [(''item_id'', JNum 1),
                    (''message'', JStr ''Item and children deleted successfully'')],
               example_db_cleared)
   \<and> (\<exists>n. delete_tree_item n 1 example_db \<noteq> None)
   \<and> journal example_db_cleared
       = journal example_db @ map DeleteById [2, 4, 3, 1]
   \<and> children_first (rows example_db) [2, 4, 3, 1]
   \<and> (\<exists>ds. journal example_db_cleared = journal example_db @ map DeleteById ds
           \<and> children_first (rows example_db) ds
           \<and> (\<forall>pre d post. ds = pre @ d # post \<longrightarrow>
                 (\<forall>r \<in> set (rows example_db).
                    row_parent_id r = Some d \<longrightarrow> row_id r \<in> set pre)))"
proof -
  have h1: "parents_first (rows example_db)"
    by (simp add: parents_first_def example_db_def example_rows_def)
  have h2: "delete_tree_item 3 1 example_db
       = Some (Inr [(''item_id'', JNum 1),
                    (''message'', JStr ''Item and children deleted successfully'')],
               example_db_cleared)"
    by (simp add: delete_tree_item_def fetch_one_by_id_def fetch_children_def
        exec_delete_by_id_def numeral_3_eq_3
        example_db_def example_rows_def example_db_cleared_def)
  have j: "journal example_db_cleared = journal example_db @ map DeleteById [2, 4, 3, 1]"
    by (simp add: example_db_def example_db_cleared_def)
  from delete_post_order [of example_db 1 3 _ example_db_cleared] h1 h2
  have c: "(\<exists>n. delete_tree_item n 1 example_db \<noteq> None)
    \<and> (\<exists>ds. journal example_db_cleared = journal example_db @ map DeleteById ds
           \<and> children_first (rows example_db) ds
           \<and> (\<forall>pre d post. ds = pre @ d # post \<longrightarrow>
                 (\<forall>r \<in> set (rows example_db).
                    row_parent_id r = Some d \<longrightarrow> row_id r \<in> set pre)))"
    by blast
  then obtain ds where "journal example_db_cleared = journal example_db @ map DeleteById ds"
    and cf: "children_first (rows example_db) ds"
    by blast
  with j have "map DeleteById ds = map DeleteById [2, 4, 3, 1]" by simp
  then have "ds = [2, 4, 3, 1]"
    by (auto simp: map_eq_Cons_conv)
  with cf have "children_first (rows example_db) [2, 4, 3, 1]" by simp
  with h1 h2 j c show ?thesis by blast
qed

section \<open>Building the response\<close>

lemma fetch_one_by_id_Some:
  "fetch_one_by_id s nid = Some node \<Longrightarrow> row_id node = nid \<and> node \<in> set (rows s)"
  by (auto simp: fetch_one_by_id_def find_Some_iff)

lemma fetch_one_by_id_None:
  "fetch_one_by_id s nid = None \<longleftrightarrow> nid \<notin> row_id ` set (rows s)"
  by (auto simp: fetch_one_by_id_def find_None_iff)

lemma fetch_children_exist:
  "c \<in> set (fetch_children s nid) \<Longrightarrow> fetch_one_by_id s c \<noteq> None"
  by (auto simp: fetch_children_def fetch_one_by_id_None)

lemma fetch_root_ids_exist:
  "c \<in> set (fetch_root_ids s) \<Longrightarrow> fetch_one_by_id s c \<noteq> None"
  by (auto simp: fetch_root_ids_def fetch_one_by_id_None)

text \<open>
  Every node of a tree that \<open>build_tree_recursive\<close> returns agrees with the table, and
  the tree has the id it was asked for; the loop returns one tree for each id that has
  a row, in the order of the ids.
\<close>

lemma build_tree_recursive_agrees:
  "build_tree_recursive n nid s = Some (Some t) \<Longrightarrow>
     resp_id t = nid \<and> (\<forall>u \<in> set (resp_nodes t). children_agree s u)"
  and build_children_agrees:
  "build_children n cs s = Some ts \<Longrightarrow> \<forall>c \<in> set cs. fetch_one_by_id s c \<noteq> None \<Longrightarrow>
     map resp_id ts = cs \<and> (\<forall>u \<in> set (resp_nodes_list ts). children_agree s u)"
proof (induction n nid s and n cs s arbitrary: t and ts
    rule: build_tree_recursive_build_children.induct)
  case (1 nid s)
  then show ?case by simp
next
  case (2 n nid s)
  from "2.prems" obtain node children where node: "fetch_one_by_id s nid = Some node"
    and ch: "build_children n (fetch_children s nid) s = Some children"
    and t: "t = TreeItemResponse (row_id node) (row_name node) (row_data node)
                 (row_parent_id node) (if children \<noteq> [] then Some children else None)"
    by (auto split: option.splits)
  from "2.IH" [OF node ch] fetch_children_exist
  have ids: "map resp_id children = fetch_children s nid"
    and sub: "\<forall>u \<in> set (resp_nodes_list children). children_agree s u"
    by blast+
  from node have nid: "row_id node = nid" by (simp add: fetch_one_by_id_Some)
  from ids have "children = [] \<longleftrightarrow> fetch_children s nid = []" by auto
  with ids nid t have "children_agree s t"
    by (auto simp: children_agree_def)
  with sub t nid show ?case by auto
next
  case (3 n s)
  then show ?case by simp
next
  case (4 n c cs s)
  from "4.prems"(1) obtain child rest where child: "build_tree_recursive n c s = Some child"
    and rest: "build_children n cs s = Some rest"
    and ts: "ts = (case child of None \<Rightarrow> rest | Some t \<Rightarrow> t # rest)"
    by (auto split: option.splits)
  from "4.prems"(2) have "fetch_one_by_id s c \<noteq> None" by simp
  with child obtain t where t: "child = Some t"
    by (cases n) (auto split: option.splits)
  from "4.IH"(1) [of t] child t
  have "resp_id t = c" "\<forall>u \<in> set (resp_nodes t). children_agree s u" by simp_all
  moreover from "4.IH"(2) [OF child rest] "4.prems"(2)
  have "map resp_id rest = cs" "\<forall>u \<in> set (resp_nodes_list rest). children_agree s u"
    by simp_all
  ultimately show ?case using ts t by auto
qed

text \<open>
  On a table where parents have smaller ids than their children, the recursion goes to
  greater ids only and returns within a depth of the largest id minus the id it starts
  from.
\<close>

lemma build_tree_recursive_returns:
  "parents_first (rows s) \<Longrightarrow> \<forall>r \<in> set (rows s). row_id r \<le> b \<Longrightarrow> nat (b - nid) < n
     \<Longrightarrow> build_tree_recursive n nid s \<noteq> None"
  and build_children_returns:
  "parents_first (rows s) \<Longrightarrow> \<forall>r \<in> set (rows s). row_id r \<le> b
     \<Longrightarrow> \<forall>c \<in> set cs. nat (b - c) < n
     \<Longrightarrow> build_children n cs s \<noteq> None"
proof (induction n nid s and n cs s rule: build_tree_recursive_build_children.induct)
  case (1 nid s)
  then show ?case by simp
next
  case (2 n nid s)
  have "nat (b - c) < n" if "c \<in> set (fetch_children s nid)" for c
  proof -
    from that obtain r where r: "r \<in> set (rows s)" "row_parent_id r = Some nid" "c = row_id r"
      by (auto simp: fetch_children_def)
    with "2.prems"(1) have "nid < c" by (auto simp: parents_first_def list_all_iff)
    moreover from r "2.prems"(2) have "c \<le> b" by simp
    ultimately show ?thesis using "2.prems"(3) by linarith
  qed
  then have cs: "\<forall>c \<in> set (fetch_children s nid). nat (b - c) < n" by blast
  show ?case
  proof (cases "fetch_one_by_id s nid")
    case None
    then show ?thesis by simp
  next
    case (Some node)
    from "2.IH" [OF Some "2.prems"(1,2) cs] Some show ?thesis
      by (auto split: option.splits)
  qed
next
  case (3 n s)
  then show ?case by simp
next
  case (4 n c cs s)
  then show ?case by (auto split: option.splits)
qed

lemma retrieve_tree_returns:
  assumes "parents_first (rows s)"
  shows "\<exists>n. retrieve_tree n s \<noteq> None"
proof -
  define b where "b = Max (insert 0 (row_id ` set (rows s)))"
  define lo where "lo = Min (insert 0 (row_id ` set (rows s)))"
  have b: "\<forall>r \<in> set (rows s). row_id r \<le> b"
    by (simp add: b_def)
  have "lo \<le> c" if "c \<in> set (fetch_root_ids s)" for c
    using that by (auto simp: lo_def fetch_root_ids_def intro: Min_le)
  then have "\<forall>c \<in> set (fetch_root_ids s). nat (b - c) < Suc (nat (b - lo))"
    by fastforce
  with assms b have "build_children (Suc (nat (b - lo))) (fetch_root_ids s) s \<noteq> None"
    by (rule build_children_returns)
  then have "retrieve_tree (Suc (nat (b - lo))) s \<noteq> None"
    by (simp add: retrieve_tree_def Let_def)
  then show ?thesis ..
qed

text \<open>
  Claim C9. Where parents have smaller ids than their children, \<^verbatim>\<open>GET /api/tree\<close>
  returns for a large enough recursion depth. Whenever it returns, every node of every
  returned tree, at any depth, has a children field that is never the empty list: it is
  null when no row of the table has the node's id as its parent, and otherwise the
  non-empty list of the children, one for each such row.
\<close>

theorem children_null_or_nonempty:
  "(parents_first (rows s) \<longrightarrow> (\<exists>n. retrieve_tree n s \<noteq> None))
   \<and> (retrieve_tree n s = Some trees \<longrightarrow>
        (\<forall>t \<in> set (resp_nodes_list trees).
           resp_children t \<noteq> Some []
         \<and> ((\<exists>ts. resp_children t = Some ts \<and> ts \<noteq> [])
              \<longleftrightarrow> (\<exists>r \<in> set (rows s). row_parent_id r = Some (resp_id t)))
         \<and> (resp_children t = None
              \<longleftrightarrow> \<not> (\<exists>r \<in> set (rows s). row_parent_id r = Some (resp_id t)))
         \<and> children_agree s t))"
proof (intro conjI impI ballI)
  assume "parents_first (rows s)"
  then show "\<exists>n. retrieve_tree n s \<noteq> None" by (rule retrieve_tree_returns)
next
  fix t
  assume r: "retrieve_tree n s = Some trees" and t: "t \<in> set (resp_nodes_list trees)"
  have "\<forall>u \<in> set (resp_nodes_list trees). children_agree s u"
  proof (cases "fetch_root_ids s = []")
    case True
    with r show ?thesis by (simp add: retrieve_tree_def)
  next
    case False
    with r have "build_children n (fetch_root_ids s) s = Some trees"
      by (simp add: retrieve_tree_def Let_def)
    then show ?thesis using fetch_root_ids_exist by (blast dest: build_children_agrees)
  qed
  with t have a: "children_agree s t" by blast
  have e: "fetch_children s (resp_id t) = [] \<longleftrightarrow>
      \<not> (\<exists>r \<in> set (rows s). row_parent_id r = Some (resp_id t))"
    by (auto simp: fetch_children_def filter_empty_conv)
  from a show "children_agree s t" .
  from a show "resp_children t \<noteq> Some []"
    by (auto simp: children_agree_def)
  from a e show "(\<exists>ts. resp_children t = Some ts \<and> ts \<noteq> [])
      \<longleftrightarrow> (\<exists>r \<in> set (rows s). row_parent_id r = Some (resp_id t))"
    by (cases "resp_children t") (auto simp: children_agree_def)
  from a e show "resp_children t = None
      \<longleftrightarrow> \<not> (\<exists>r \<in> set (rows s). row_parent_id r = Some (resp_id t))"
    by (cases "resp_children t") (auto simp: children_agree_def)
qed

theorem children_null_or_nonempty_witness:
  "parents_first (rows example_db)
   \<and> retrieve_tree 3 example_db = Some [example_tree]
   \<and> (\<exists>n. retrieve_tree n example_db \<noteq> None)
   \<and> resp_children example_tree \<noteq> Some []
   \<and> children_agree example_db example_tree
   \<and> resp_children (TreeItemResponse 2 ''a'' (Some ''alpha'') (Some 1) None) \<noteq> Some []
   \<and> children_agree example_db (TreeItemResponse 2 ''a'' (Some ''alpha'') (Some 1) None)"
proof -
  have h1: "parents_first (rows example_db)"
    by (simp add: parents_first_def example_db_def example_rows_def)
  have h2: "retrieve_tree 3 example_db = Some [example_tree]"
    by (simp add: retrieve_tree_def fetch_root_ids_def fetch_children_def fetch_one_by_id_def
        numeral_3_eq_3 example_db_def example_rows_def example_tree_def)
  have m1: "example_tree \<in> set (resp_nodes_list [example_tree])"
    and m2: "TreeItemResponse 2 ''a'' (Some ''alpha'') (Some 1) None
      \<in> set (resp_nodes_list [example_tree])"
    by (simp_all add: example_tree_def)
  from children_null_or_nonempty [of example_db 3 "[example_tree]"] h1 h2 m1 m2
  show ?thesis by blast
qed

section \<open>Reading back what was inserted\<close>

lemma outside_append: "outside lo hi (xs @ ys) \<longleftrightarrow> outside lo hi xs \<and> outside lo hi ys"
  by (auto simp: outside_def)

lemma outside_mono: "outside lo hi rs \<Longrightarrow> lo \<le> lo' \<Longrightarrow> hi' \<le> hi \<Longrightarrow> outside lo' hi' rs"
  by (fastforce simp: outside_def)

lemma outside_no_id:
  "outside lo hi rs \<Longrightarrow> lo < i \<Longrightarrow> i \<le> hi \<Longrightarrow> find (\<lambda>r. row_id r = i) rs = None"
  by (auto simp: outside_def find_None_iff)

lemma outside_no_child:
  "outside lo hi rs \<Longrightarrow> lo < i \<Longrightarrow> i \<le> hi \<Longrightarrow> filter (\<lambda>r. row_parent_id r = Some i) rs = []"
  by (auto simp: outside_def filter_empty_conv)

lemma outside_preorder_rows:
  assumes "hi \<le> k \<or> k + node_count item \<le> lo"
    and "\<forall>j. parent = Some j \<longrightarrow> \<not> (lo < j \<and> j \<le> hi)"
  shows "outside lo hi (preorder_rows item parent k)"
  unfolding outside_def
proof (intro ballI)
  fix r
  assume r: "r \<in> set (preorder_rows item parent k)"
  from preorder_rows_id_range [OF r] preorder_rows_parents [OF r] assms
  show "\<not> (lo < row_id r \<and> row_id r \<le> hi)
        \<and> (\<forall>j. row_parent_id r = Some j \<longrightarrow> \<not> (lo < j \<and> j \<le> hi))"
    by auto
qed

lemma outside_preorder_rows_list:
  assumes "hi \<le> k \<or> k + node_count_list cs \<le> lo"
    and "\<not> (lo < p \<and> p \<le> hi)"
  shows "outside lo hi (preorder_rows_list cs p k)"
  unfolding outside_def
proof (intro ballI)
  fix r
  assume r: "r \<in> set (preorder_rows_list cs p k)"
  from preorder_rows_list_id_range [OF r] preorder_rows_list_parents [OF r] assms
  show "\<not> (lo < row_id r \<and> row_id r \<le> hi)
        \<and> (\<forall>j. row_parent_id r = Some j \<longrightarrow> \<not> (lo < j \<and> j \<le> hi))"
    by auto
qed

text \<open>Among the rows of a list of children, those with the list's parent are the children.\<close>

lemma children_of_preorder_rows:
  assumes "p \<le> k"
  shows "map row_id (filter (\<lambda>r. row_parent_id r = Some p) (preorder_rows c (Some p) k)) = [k + 1]"
proof (cases c)
  case (TreeItemCreate nm dt ch)
  have "filter (\<lambda>r. row_parent_id r = Some p) (preorder_rows_list cs (k + 1) (k + 1)) = []" for cs
  proof -
    have "row_parent_id r \<noteq> Some p" if "r \<in> set (preorder_rows_list cs (k + 1) (k + 1))" for r
      using preorder_rows_list_parents [OF that] assms by auto
    then show ?thesis by (simp add: filter_empty_conv)
  qed
  with TreeItemCreate show ?thesis by (simp split: option.splits)
qed

lemma children_of_preorder_rows_list:
  "p \<le> k \<Longrightarrow>
     map row_id (filter (\<lambda>r. row_parent_id r = Some p) (preorder_rows_list cs p k)) = child_ids cs k"
proof (induction cs arbitrary: k)
  case Nil
  then show ?case by simp
next
  case (Cons c cs)
  from Cons.prems node_count_pos [of c] have "p \<le> k + node_count c" by simp
  with Cons.IH have "map row_id (filter (\<lambda>r. row_parent_id r = Some p)
      (preorder_rows_list cs p (k + node_count c))) = child_ids cs (k + node_count c)"
    by simp
  with children_of_preorder_rows [OF Cons.prems, of c] show ?case by simp
qed

lemma find_append_None: "find P xs = None \<Longrightarrow> find P (xs @ ys) = find P ys"
  by (induction xs) (auto split: if_splits)

lemma responses_of_empty: "responses_of cs p k = [] \<longleftrightarrow> cs = []"
  by (cases cs) simp_all

text \<open>
  Where the pre-order rows of an input structure lie in the table, and no other row has
  an id or a parent id among theirs, building the tree of the first of them gives the
  response of the structure, for every recursion depth from the depth of the structure.
\<close>

lemma build_of_preorder_rows:
  "rows s = A @ preorder_rows item parent k @ B
     \<Longrightarrow> outside k (k + node_count item) A \<Longrightarrow> outside k (k + node_count item) B
     \<Longrightarrow> \<forall>j. parent = Some j \<longrightarrow> \<not> (k < j \<and> j \<le> k + node_count item)
     \<Longrightarrow> item_depth item \<le> n
     \<Longrightarrow> build_tree_recursive n (k + 1) s = Some (Some (response_of item parent k))"
  and build_of_preorder_rows_list:
  "rows s = A @ preorder_rows_list cs p k @ B
     \<Longrightarrow> outside k (k + node_count_list cs) A \<Longrightarrow> outside k (k + node_count_list cs) B
     \<Longrightarrow> \<not> (k < p \<and> p \<le> k + node_count_list cs)
     \<Longrightarrow> item_depth_list cs \<le> n
     \<Longrightarrow> build_children n (child_ids cs k) s = Some (responses_of cs p k)"
proof (induction item parent k and cs p k arbitrary: A B n s and A B n s
    rule: preorder_rows_preorder_rows_list.induct)
  case (1 nm dt ch parent k)
  let ?root = "\<lparr>row_id = k + 1, row_name = nm, row_data = dt, row_parent_id = parent\<rparr>"
  let ?hi = "k + node_count (TreeItemCreate nm dt ch)"
  define L where "L = (case ch of None \<Rightarrow> [] | Some cs \<Rightarrow> preorder_rows_list cs (k + 1) (k + 1))"
  define ids where "ids = (case ch of None \<Rightarrow> [] | Some cs \<Rightarrow> child_ids cs (k + 1))"
  define ts where "ts = (case ch of None \<Rightarrow> [] | Some cs \<Rightarrow> responses_of cs (k + 1) (k + 1))"
  from "1.prems"(5) obtain m where n: "n = Suc m"
    and m: "(case ch of None \<Rightarrow> 0 | Some cs \<Rightarrow> item_depth_list cs) \<le> m"
    by (cases n) auto
  have hi: "k + 1 \<le> ?hi"
    using node_count_pos [of "TreeItemCreate nm dt ch"] by simp
  from "1.prems"(1) have rows: "rows s = A @ ?root # L @ B"
    by (simp add: L_def)
  have "find (\<lambda>r. row_id r = k + 1) A = None"
    using hi by (intro outside_no_id [OF "1.prems"(2)]) simp_all
  then have one: "fetch_one_by_id s (k + 1) = Some ?root"
    by (simp add: fetch_one_by_id_def rows find_append_None)
  have fA: "filter (\<lambda>r. row_parent_id r = Some (k + 1)) A = []"
    using hi by (intro outside_no_child [OF "1.prems"(2)]) simp_all
  have fB: "filter (\<lambda>r. row_parent_id r = Some (k + 1)) B = []"
    using hi by (intro outside_no_child [OF "1.prems"(3)]) simp_all
  have fr: "parent \<noteq> Some (k + 1)"
    using "1.prems"(4) hi by auto
  have fL: "map row_id (filter (\<lambda>r. row_parent_id r = Some (k + 1)) L) = ids"
    by (auto simp: L_def ids_def children_of_preorder_rows_list split: option.splits)
  from fA fB fr fL have kids: "fetch_children s (k + 1) = ids"
    by (simp add: fetch_children_def rows)
  have built: "build_children m ids s = Some ts"
  proof (cases ch)
    case None
    then show ?thesis by (simp add: ids_def ts_def)
  next
    case (Some cs)
    have r': "rows s = (A @ [?root]) @ preorder_rows_list cs (k + 1) (k + 1) @ B"
      by (simp add: rows L_def Some)
    have hi': "k + 1 + node_count_list cs = ?hi"
      by (simp add: Some)
    have "outside (k + 1) (k + 1 + node_count_list cs) A"
      using "1.prems"(2) by (rule outside_mono) (simp_all add: Some)
    moreover have "outside (k + 1) (k + 1 + node_count_list cs) [?root]"
      using "1.prems"(4) by (auto simp: outside_def Some)
    ultimately have oA: "outside (k + 1) (k + 1 + node_count_list cs) (A @ [?root])"
      by (simp add: outside_append)
    have oB: "outside (k + 1) (k + 1 + node_count_list cs) B"
      using "1.prems"(3) by (rule outside_mono) (simp_all add: Some)
    from m Some have d: "item_depth_list cs \<le> m" by simp
    from "1.IH" [OF Some r' oA oB _ d]
    show ?thesis by (simp add: ids_def ts_def Some)
  qed
  have "(if ts \<noteq> [] then Some ts else None)
      = (case ch of None \<Rightarrow> None
         | Some cs \<Rightarrow> if cs \<noteq> [] then Some (responses_of cs (k + 1) (k + 1)) else None)"
    by (auto simp: ts_def responses_of_empty split: option.splits)
  with one kids built show ?case by (simp add: n)
next
  case (2 parent k)
  then show ?case by simp
next
  case (3 c cs p k)
  let ?k2 = "k + node_count c"
  have pos: "0 < node_count c" "0 \<le> node_count_list cs"
    by (simp_all add: node_count_pos node_count_list_nonneg)
  from "3.prems"(1) have r1:
    "rows s = A @ preorder_rows c (Some p) k @ (preorder_rows_list cs p ?k2 @ B)"
    and r2: "rows s = (A @ preorder_rows c (Some p) k) @ preorder_rows_list cs p ?k2 @ B"
    by simp_all
  from "3.prems"(4) pos have p1: "\<forall>j. Some p = Some j \<longrightarrow> \<not> (k < j \<and> j \<le> k + node_count c)"
    and p2: "\<not> (?k2 < p \<and> p \<le> ?k2 + node_count_list cs)"
    and p3: "\<not> (k < p \<and> p \<le> k + node_count c)"
    by auto
  have "outside k (k + node_count c) A"
    using pos by (intro outside_mono [OF "3.prems"(2)]) simp_all
  moreover have "outside k (k + node_count c) (preorder_rows_list cs p ?k2)"
    using p3 by (intro outside_preorder_rows_list) simp_all
  moreover have "outside k (k + node_count c) B"
    using pos by (intro outside_mono [OF "3.prems"(3)]) simp_all
  ultimately have oA1: "outside k (k + node_count c) A"
    and oB1: "outside k (k + node_count c) (preorder_rows_list cs p ?k2 @ B)"
    by (simp_all add: outside_append)
  from "3.prems"(5) have d1: "item_depth c \<le> n" and d2: "item_depth_list cs \<le> n"
    by simp_all
  from "3.IH"(1) [OF r1 oA1 oB1 p1 d1]
  have first: "build_tree_recursive n (k + 1) s = Some (Some (response_of c (Some p) k))" .
  have "outside ?k2 (?k2 + node_count_list cs) A"
    using pos by (intro outside_mono [OF "3.prems"(2)]) (simp_all add: add.assoc)
  moreover have "outside ?k2 (?k2 + node_count_list cs) (preorder_rows c (Some p) k)"
    using p2 by (intro outside_preorder_rows) simp_all
  ultimately have oA2: "outside ?k2 (?k2 + node_count_list cs) (A @ preorder_rows c (Some p) k)"
    by (simp add: outside_append)
  have oB2: "outside ?k2 (?k2 + node_count_list cs) B"
    using pos by (intro outside_mono [OF "3.prems"(3)]) (simp_all add: add.assoc)
  from "3.IH"(2) [OF r2 oA2 oB2 p2 d2]
  have rest: "build_children n (child_ids cs ?k2) s = Some (responses_of cs p ?k2)" .
  from first rest show ?case by simp
qed

lemma same_shape_response_of: "same_shape item (response_of item parent k)"
  and same_shape_responses_of: "same_shape_list cs (responses_of cs p k)"
proof (induction item parent k and cs p k rule: response_of_responses_of.induct)
  case (1 nm dt ch parent k)
  then show ?case by (cases ch) auto
next
  case (2 parent k)
  then show ?case by simp
next
  case (3 c cs parent k)
  then show ?case by simp
qed

lemma resp_parent_id_response_of: "resp_parent_id (response_of item parent k) = parent"
  by (cases item) simp

lemma resp_id_response_of: "resp_id (response_of item parent k) = k + 1"
  by (cases item) simp

lemma linked_response_of: "linked (response_of item parent k)"
  and linked_responses_of: "linked_list p (responses_of cs p k)"
  by (induction item parent k and cs p k rule: response_of_responses_of.induct)
    (auto simp: resp_parent_id_response_of split: option.splits)

text \<open>The only row of a freshly inserted tree that has no parent is its first.\<close>

lemma roots_of_preorder_rows:
  "map row_id (filter (\<lambda>r. row_parent_id r = None) (preorder_rows item None k)) = [k + 1]"
proof (cases item)
  case (TreeItemCreate nm dt ch)
  have "filter (\<lambda>r. row_parent_id r = None) (preorder_rows_list cs (k + 1) (k + 1)) = []" for cs
  proof -
    have "row_parent_id r \<noteq> None" if "r \<in> set (preorder_rows_list cs (k + 1) (k + 1))" for r
      using preorder_rows_list_parents [OF that] by auto
    then show ?thesis by (simp add: filter_empty_conv)
  qed
  with TreeItemCreate show ?thesis by (simp split: option.splits)
qed

text \<open>
  Claim C1. After \<^verbatim>\<open>POST /api/tree\<close> of an input structure on any database,
  \<^verbatim>\<open>GET /api/tree\<close> returns, for every recursion depth from the depth of the input,
  exactly one tree. It has the shape of the input: the same names and data, and at each
  node the children of the input in their order (an absent or empty list of children
  comes back as null). Its root has no parent and the id that the reply of the
  \<^verbatim>\<open>POST\<close> gave as \<^verbatim>\<open>root_id\<close>, and every child names as its parent the id of the
  node it is listed under. The ids are the ones the insert assigned, in pre-order from
  the id counter.
\<close>

theorem replace_then_get_round_trip:
  assumes "create_tree_item item s = (reply, s')" and "item_depth item \<le> n"
  shows "\<exists>t. retrieve_tree n s' = Some [t]
    \<and> same_shape item t
    \<and> linked t
    \<and> resp_parent_id t = None
    \<and> reply = [(''message'', JStr ''Tree replaced successfully''),
                (''root_id'', JNum (resp_id t))]
    \<and> t = response_of item None (last_id s)"
proof -
  let ?k = "last_id s"
  let ?t = "response_of item None ?k"
  from assms(1) have reply: "reply = [(''message'', JStr ''Tree replaced successfully''),
                  (''root_id'', JNum (?k + 1))]"
    and rows: "rows s' = preorder_rows item None ?k"
    by (auto simp: create_tree_item_rows)
  from rows have "rows s' = [] @ preorder_rows item None ?k @ []" by simp
  then have "build_tree_recursive n (?k + 1) s' = Some (Some ?t)"
    using _ _ _ assms(2) by (rule build_of_preorder_rows) (simp_all add: outside_def)
  moreover have "fetch_root_ids s' = [?k + 1]"
    by (simp add: fetch_root_ids_def rows roots_of_preorder_rows)
  ultimately have "retrieve_tree n s' = Some [?t]"
    by (simp add: retrieve_tree_def)
  with reply show ?thesis
    by (simp add: same_shape_response_of linked_response_of resp_parent_id_response_of
        resp_id_response_of)
qed

theorem replace_then_get_round_trip_witness:
  "create_tree_item example_item example_db =
     ([(''message'', JStr ''Tree replaced successfully''), (''root_id'', JNum 5)], replaced_db)
   \<and> item_depth example_item \<le> 3
   \<and> retrieve_tree 3 replaced_db = Some [replaced_tree]
   \<and> (\<exists>t. retrieve_tree 3 replaced_db = Some [t]
        \<and> same_shape example_item t
        \<and> linked t
        \<and> resp_parent_id t = None
        \<and> [(''message'', JStr ''Tree replaced successfully''), (''root_id'', JNum 5)]
            = [(''message'', JStr ''Tree replaced successfully''),
               (''root_id'', JNum (resp_id t))]
        \<and> t = response_of example_item None (last_id example_db))"
proof -
  have h: "item_depth example_item \<le> 3"
    by (simp add: example_item_def)
  have e: "retrieve_tree 3 replaced_db = Some [replaced_tree]"
    by (simp add: retrieve_tree_def fetch_root_ids_def fetch_children_def fetch_one_by_id_def
        numeral_3_eq_3 replaced_db_def replaced_rows_def replaced_tree_def)
  from replace_then_get_round_trip [OF create_example h] create_example h e
  show ?thesis by blast
qed

section \<open>The tables the routes build\<close>

lemma parents_first_preorder_rows: "parents_first (preorder_rows item None k)"
  unfolding parents_first_def list_all_iff
proof
  fix r
  assume "r \<in> set (preorder_rows item None k)"
  from preorder_rows_parents [OF this]
  show "case row_parent_id r of None \<Rightarrow> True | Some p \<Rightarrow> p < row_id r"
    by auto
qed

lemma parents_first_update:
  "parents_first (rows s) \<Longrightarrow> parents_first (rows (exec_update_data dt i s))"
  by (fastforce simp: parents_first_def list_all_iff exec_update_data_def
      split: option.splits)

text \<open>
  In every database that the routes reach from the empty one, parents have smaller ids
  than their children, and every id is one the counter has handed out; so reading the
  tree and deleting a node return there, for a large enough recursion depth.
\<close>

lemma reachable_parents_first: "s \<in> reachable \<Longrightarrow> parents_first (rows s)"
proof (induction rule: reachable.induct)
  case init
  then show ?case by (simp add: empty_db_def parents_first_def)
next
  case (post s body)
  then show ?case
    by (auto simp: post_api_tree_def create_tree_item_rows parents_first_preorder_rows
        split: sum.splits)
next
  case (put s item_id body)
  then show ?case
    by (auto simp: put_api_tree_data_def update_tree_item_data_def parents_first_update
        split: sum.splits option.splits)
next
  case (delete s n item_id res s')
  from delete.hyps(2) have "s' = s \<or> delete_recursive n item_id s = Some s'"
    by (auto simp: delete_tree_item_def split: option.splits)
  with delete.IH show ?case
    by (auto simp: delete_recursive_rows parents_first_filter)
qed

lemma reachable_ids_bounded: "s \<in> reachable \<Longrightarrow> \<forall>r \<in> set (rows s). row_id r \<le> last_id s"
proof (induction rule: reachable.induct)
  case init
  then show ?case by (simp add: empty_db_def)
next
  case (post s body)
  have "row_id r \<le> k + node_count item" if "r \<in> set (preorder_rows item None k)" for r item k
    using preorder_rows_id_range [OF that] by simp
  with post show ?case
    by (auto simp: post_api_tree_def create_tree_item_rows split: sum.splits)
next
  case (put s item_id body)
  then show ?case
    by (auto simp: put_api_tree_data_def update_tree_item_data_def exec_update_data_def
        split: sum.splits option.splits)
next
  case (delete s n item_id res s')
  from delete.hyps(2) have "s' = s \<or> delete_recursive n item_id s = Some s'"
    by (auto simp: delete_tree_item_def split: option.splits)
  with delete.IH show ?case
    by (auto simp: delete_recursive_rows)
qed

lemma reachable_returns:
  assumes "s \<in> reachable"
  shows "\<exists>n. retrieve_tree n s \<noteq> None" and "\<exists>n. delete_tree_item n item_id s \<noteq> None"
proof -
  from assms have "parents_first (rows s)" by (rule reachable_parents_first)
  then show "\<exists>n. retrieve_tree n s \<noteq> None" and "\<exists>n. delete_tree_item n item_id s \<noteq> None"
    by (rule retrieve_tree_returns, rule delete_tree_item_returns)
qed

end
